theory Spec2Isabelle
  imports Main
begin

section \<open>Boards\<close>

text \<open>
  The two players' marks are the strings \<open>'X'\<close> (\<open>MarkX\<close>) and \<open>'O'\<close>
  (\<open>MarkO\<close>; the letter alone is the composition of relations in HOL). A cell of a board holds
  a mark, or \<open>null\<close> (as filled in by \<open>Array(9).fill(null)\<close>), or nothing at all
  (reading past the end of an array yields \<open>undefined\<close>). The program only ever tests
  a cell for truthiness and compares truthy cells with \<open>===\<close>, so \<open>null\<close>,
  \<open>undefined\<close> and holes are one value here, \<open>None\<close>.
\<close>

datatype mark = MarkX | MarkO

text \<open>
  A board is a JavaScript array. Besides its indexed elements an array object can
  carry further properties: an assignment \<open>a[i] = v\<close> whose key is not an array
  index (an integer \<open>i\<close> with \<open>0 \<le> i < 2^32 - 1\<close>) stores \<open>v\<close> as an ordinary
  property and leaves the length alone, and \<open>a[i]\<close> reads it back.
\<close>

record squares =
  elems :: "mark option list"
  props :: "int \<rightharpoonup> mark"

definition array_index :: "int \<Rightarrow> bool" where
  "array_index i \<longleftrightarrow> 0 \<le> i \<and> i < 4294967295"

text \<open>\<open>squares[i]\<close>\<close>

definition idx :: "squares \<Rightarrow> int \<Rightarrow> mark option" where
  "idx sq i =
     (if array_index i
      then (if nat i < length (elems sq) then elems sq ! nat i else None)
      else props sq i)"

text \<open>\<open>squares[i] = v\<close>: writing at or past the length extends the array, leaving holes.\<close>

definition assign :: "squares \<Rightarrow> int \<Rightarrow> mark \<Rightarrow> squares" where
  "assign sq i v =
     (if array_index i
      then (if nat i < length (elems sq)
            then sq\<lparr>elems := (elems sq)[nat i := Some v]\<rparr>
            else sq\<lparr>elems := elems sq @ replicate (nat i - length (elems sq)) None @ [Some v]\<rparr>)
      else sq\<lparr>props := (props sq)(i \<mapsto> v)\<rparr>)"

text \<open>\<open>squares.slice()\<close> copies the indexed elements only.\<close>

definition slice :: "squares \<Rightarrow> squares" where
  "slice sq = \<lparr>elems = elems sq, props = Map.empty\<rparr>"

text \<open>\<open>Array(9).fill(null)\<close>\<close>

definition emptyBoard :: squares where
  "emptyBoard = \<lparr>elems = replicate 9 None, props = Map.empty\<rparr>"

section \<open>calculateWinner\<close>

definition lines :: "(int \<times> int \<times> int) list" where
  "lines =
     [(0, 1, 2), (3, 4, 5), (6, 7, 8),
      (0, 3, 6), (1, 4, 7), (2, 5, 8),
      (0, 4, 8), (2, 4, 6)]"

text \<open>The object \<open>{ winner, line }\<close> that \<open>calculateWinner\<close> returns.\<close>

record outcome =
  winner :: "mark option"
  line :: "int list"

text \<open>The \<open>for\<close> loop over \<open>lines\<close>, from the line at hand to the last one.\<close>

fun scan :: "squares \<Rightarrow> (int \<times> int \<times> int) list \<Rightarrow> outcome" where
  "scan sq [] = \<lparr>winner = None, line = []\<rparr>"
| "scan sq ((a, b, c) # ls) =
     (if idx sq a \<noteq> None \<and> idx sq a = idx sq b \<and> idx sq a = idx sq c
      then \<lparr>winner = idx sq a, line = [a, b, c]\<rparr>
      else scan sq ls)"

definition calculateWinner :: "squares \<Rightarrow> outcome" where
  "calculateWinner sq = scan sq lines"

section \<open>What a render derives from the current board\<close>

text \<open>\<open>currentSquares.filter(Boolean).length\<close>\<close>

definition movesPlayed :: "squares \<Rightarrow> nat" where
  "movesPlayed sq = length (filter (\<lambda>c. c \<noteq> None) (elems sq))"

definition isDraw :: "squares \<Rightarrow> bool" where
  "isDraw sq \<longleftrightarrow> winner (calculateWinner sq) = None \<and> movesPlayed sq = 9"

definition gameOver :: "squares \<Rightarrow> bool" where
  "gameOver sq \<longleftrightarrow> winner (calculateWinner sq) \<noteq> None \<or> isDraw sq"

text \<open>
  The status shown to the player, with the cases of \<open>statusText\<close> in their order:
  a winner (with the line that is highlighted), else a draw, else whose turn it is.
\<close>

datatype status = InProgress mark | Won mark "int list" | Draw

definition statusOf :: "squares \<Rightarrow> bool \<Rightarrow> status" where
  "statusOf sq xNext =
     (case winner (calculateWinner sq) of
        Some m \<Rightarrow> Won m (line (calculateWinner sq))
      | None \<Rightarrow> if isDraw sq then Draw else InProgress (if xNext then MarkX else MarkO))"

text \<open>A line is complete when its three cells hold the same mark.\<close>

definition complete :: "squares \<Rightarrow> int \<times> int \<times> int \<Rightarrow> bool" where
  "complete sq l =
     (case l of (a, b, c) \<Rightarrow> idx sq a \<noteq> None \<and> idx sq a = idx sq b \<and> idx sq a = idx sq c)"

section \<open>The state of the component\<close>

text \<open>
  The repository holds the component \<open>App\<close> in two forms. Both keep the list of
  board snapshots \<open>history\<close> and the index \<open>step\<close> of the snapshot on display.
  \<^item> \<open>tic_tac_toe_frontend/src/App.js\<close> keeps a third piece of state, the flag
    \<open>xIsNext\<close>, and offers play, reset and undo; its state is the record \<open>app\<close>.
  \<^item> The form with the move list derives \<open>xIsNext\<close> from \<open>step\<close> and offers play,
    reset, undo, redo and jumping to a move; its state is the record \<open>nav\<close> and
    the names that clash with the first form carry the suffix \<open>_nav\<close>.
\<close>

record nav =
  history :: "squares list"
  step :: nat

record app = nav +
  xIsNext :: bool

text \<open>
  \<open>history[step]\<close>. Past the end of \<open>history\<close> it is \<open>undefined\<close>, and the render
  throws a TypeError as soon as it reads a cell of it.
\<close>

datatype error = TypeError

definition currentSquares :: "'a nav_scheme \<Rightarrow> squares option" where
  "currentSquares s =
     (if step s < length (history s) then Some (history s ! step s) else None)"

text \<open>\<open>useState([Array(9).fill(null)])\<close>, \<open>useState(0)\<close>, \<open>useState(true)\<close>\<close>

definition initial :: app where
  "initial = \<lparr>history = [emptyBoard], step = 0, xIsNext = True\<rparr>"

definition initial_nav :: nav where
  "initial_nav = \<lparr>history = [emptyBoard], step = 0\<rparr>"

subsection \<open>App.js: the handlers\<close>

text \<open>
  A handler is created by the render of the state it is called in, so there is none
  where that render throws: the model answers \<open>TypeError\<close> there. A handler returns
  nothing; what it does is to call the state setters or not, so the model returns
  the next state, which is the state itself after an early return or a failed test.
\<close>

definition handlePlay :: "int \<Rightarrow> app \<Rightarrow> error + app" where
  "handlePlay i s =
     (case currentSquares s of
        None \<Rightarrow> Inl TypeError
      | Some cur \<Rightarrow>
          if idx cur i \<noteq> None \<or> winner (calculateWinner cur) \<noteq> None then Inr s
          else
            let next = assign (slice cur) i (if xIsNext s then MarkX else MarkO);
                nextHistory = take (step s + 1) (history s) @ [next]
            in Inr (s\<lparr>history := nextHistory, step := step s + 1, xIsNext := \<not> xIsNext s\<rparr>))"

definition handleReset :: "app \<Rightarrow> error + app" where
  "handleReset s =
     (case currentSquares s of
        None \<Rightarrow> Inl TypeError
      | Some cur \<Rightarrow> Inr (s\<lparr>history := [emptyBoard], step := 0, xIsNext := True\<rparr>))"

definition handleUndo :: "app \<Rightarrow> error + app" where
  "handleUndo s =
     (case currentSquares s of
        None \<Rightarrow> Inl TypeError
      | Some cur \<Rightarrow>
          if step s > 0 \<and> winner (calculateWinner cur) = None
          then Inr (s\<lparr>step := step s - 1, xIsNext := \<not> xIsNext s\<rparr>)
          else Inr s)"

definition currentStatus :: "app \<Rightarrow> error + status" where
  "currentStatus s =
     (case currentSquares s of
        None \<Rightarrow> Inl TypeError
      | Some cur \<Rightarrow> Inr (statusOf cur (xIsNext s)))"

subsection \<open>The form with the move list: the handlers\<close>

text \<open>\<open>useMemo(() => step % 2 === 0, [step])\<close>\<close>

definition xIsNext_nav :: "nav \<Rightarrow> bool" where
  "xIsNext_nav s \<longleftrightarrow> step s mod 2 = 0"

definition handlePlay_nav :: "int \<Rightarrow> nav \<Rightarrow> error + nav" where
  "handlePlay_nav i s =
     (case currentSquares s of
        None \<Rightarrow> Inl TypeError
      | Some cur \<Rightarrow>
          if idx cur i \<noteq> None \<or> winner (calculateWinner cur) \<noteq> None then Inr s
          else
            let next = assign (slice cur) i (if xIsNext_nav s then MarkX else MarkO);
                truncated = take (step s + 1) (history s);
                nextHistory = truncated @ [next]
            in Inr (s\<lparr>history := nextHistory, step := step s + 1\<rparr>))"

definition handleReset_nav :: "nav \<Rightarrow> error + nav" where
  "handleReset_nav s =
     (case currentSquares s of
        None \<Rightarrow> Inl TypeError
      | Some cur \<Rightarrow> Inr (s\<lparr>history := [emptyBoard], step := 0\<rparr>))"

definition handleUndo_nav :: "nav \<Rightarrow> error + nav" where
  "handleUndo_nav s =
     (case currentSquares s of
        None \<Rightarrow> Inl TypeError
      | Some cur \<Rightarrow> if step s > 0 then Inr (s\<lparr>step := step s - 1\<rparr>) else Inr s)"

definition handleRedo :: "nav \<Rightarrow> error + nav" where
  "handleRedo s =
     (case currentSquares s of
        None \<Rightarrow> Inl TypeError
      | Some cur \<Rightarrow>
          if int (step s) < int (length (history s)) - 1
          then Inr (s\<lparr>step := step s + 1\<rparr>) else Inr s)"

definition jumpTo :: "int \<Rightarrow> nav \<Rightarrow> error + nav" where
  "jumpTo moveIndex s =
     (case currentSquares s of
        None \<Rightarrow> Inl TypeError
      | Some cur \<Rightarrow>
          if moveIndex \<ge> 0 \<and> moveIndex < int (length (history s))
          then Inr (s\<lparr>step := nat moveIndex\<rparr>) else Inr s)"

definition currentStatus_nav :: "nav \<Rightarrow> error + status" where
  "currentStatus_nav s =
     (case currentSquares s of
        None \<Rightarrow> Inl TypeError
      | Some cur \<Rightarrow> Inr (statusOf cur (xIsNext_nav s)))"

subsection \<open>Reachable states\<close>

text \<open>
  The board renders nine cells, and cell \<open>i\<close> calls \<open>onPlay(i)\<close>: a play carries an
  index from 0 to 8 (what \<open>handlePlay\<close> does with any other index is the subject of
  the last section). The move list only offers the moves of \<open>history\<close>, but
  \<open>jumpTo\<close> checks its argument itself, so any integer is let through here.
\<close>

inductive reachable :: "app \<Rightarrow> bool" where
  start: "reachable initial"
| play: "reachable s \<Longrightarrow> 0 \<le> i \<Longrightarrow> i \<le> 8 \<Longrightarrow> handlePlay i s = Inr s' \<Longrightarrow> reachable s'"
| undo: "reachable s \<Longrightarrow> handleUndo s = Inr s' \<Longrightarrow> reachable s'"
| reset: "reachable s \<Longrightarrow> handleReset s = Inr s' \<Longrightarrow> reachable s'"

inductive reachable_nav :: "nav \<Rightarrow> bool" where
  start: "reachable_nav initial_nav"
| play: "reachable_nav s \<Longrightarrow> 0 \<le> i \<Longrightarrow> i \<le> 8 \<Longrightarrow> handlePlay_nav i s = Inr s'
           \<Longrightarrow> reachable_nav s'"
| undo: "reachable_nav s \<Longrightarrow> handleUndo_nav s = Inr s' \<Longrightarrow> reachable_nav s'"
| redo: "reachable_nav s \<Longrightarrow> handleRedo s = Inr s' \<Longrightarrow> reachable_nav s'"
| jump: "reachable_nav s \<Longrightarrow> jumpTo m s = Inr s' \<Longrightarrow> reachable_nav s'"
| reset: "reachable_nav s \<Longrightarrow> handleReset_nav s = Inr s' \<Longrightarrow> reachable_nav s'"

subsection \<open>The shape of a history\<close>

text \<open>A board of the game: nine cells and no stray property.\<close>

definition board9 :: "squares \<Rightarrow> bool" where
  "board9 b \<longleftrightarrow> length (elems b) = 9 \<and> props b = Map.empty"

text \<open>
  \<open>b'\<close> is \<open>b\<close> after one move of \<open>m\<close>: exactly one cell differs, empty in \<open>b\<close>
  and holding \<open>m\<close> in \<open>b'\<close>.
\<close>

definition placed :: "mark \<Rightarrow> squares \<Rightarrow> squares \<Rightarrow> bool" where
  "placed m b b' \<longleftrightarrow>
     board9 b \<and> board9 b' \<and>
     (\<exists>k<9. elems b ! k = None \<and> elems b' ! k = Some m \<and>
        (\<forall>j<9. j \<noteq> k \<longrightarrow> elems b' ! j = elems b ! j))"

definition history_ok :: "'a nav_scheme \<Rightarrow> bool" where
  "history_ok s \<longleftrightarrow>
     history s \<noteq> [] \<and> history s ! 0 = emptyBoard \<and> step s < length (history s) \<and>
     (\<forall>i. Suc i < length (history s) \<longrightarrow>
        placed (if even i then MarkX else MarkO) (history s ! i) (history s ! Suc i))"

text \<open>In App.js the flag is in step with the parity of \<open>step\<close>.\<close>

definition flag_ok :: "app \<Rightarrow> bool" where
  "flag_ok s \<longleftrightarrow> history_ok s \<and> xIsNext s = even (step s)"

subsection \<open>Scenarios\<close>

text \<open>The cells of a list clicked one after the other, in either form of the component.\<close>

fun clicks :: "int list \<Rightarrow> app \<Rightarrow> error + app" where
  "clicks [] s = Inr s"
| "clicks (i # js) s = (case handlePlay i s of Inl e \<Rightarrow> Inl e | Inr s' \<Rightarrow> clicks js s')"

fun clicks_nav :: "int list \<Rightarrow> nav \<Rightarrow> error + nav" where
  "clicks_nav [] s = Inr s"
| "clicks_nav (i # js) s =
     (case handlePlay_nav i s of Inl e \<Rightarrow> Inl e | Inr s' \<Rightarrow> clicks_nav js s')"

text \<open>A board with the given cells and no stray property, for writing boards down.\<close>

abbreviation (input) grid :: "mark option list \<Rightarrow> squares" where
  "grid cs \<equiv> \<lparr>elems = cs, props = Map.empty\<rparr>"

abbreviation (input) cx :: "mark option" where "cx \<equiv> Some MarkX"

abbreviation (input) co :: "mark option" where "co \<equiv> Some MarkO"

abbreviation (input) ce :: "mark option" where "ce \<equiv> None"

text \<open>
  The snapshots of three games, for the examples: X on 0 and 1 against O on 3 and 4;
  X on 4, 2 and 6 against O on 0 and 1, which X wins on the line 2, 4, 6; and
  X on 0, 1 and 8 against O on 4 and 3.
\<close>

abbreviation (input) top_row_game :: "squares list" where
  "top_row_game \<equiv>
     [emptyBoard,
      grid [cx, ce, ce, ce, ce, ce, ce, ce, ce],
      grid [cx, ce, ce, co, ce, ce, ce, ce, ce],
      grid [cx, cx, ce, co, ce, ce, ce, ce, ce],
      grid [cx, cx, ce, co, co, ce, ce, ce, ce]]"

abbreviation (input) diagonal_game :: "squares list" where
  "diagonal_game \<equiv>
     [emptyBoard,
      grid [ce, ce, ce, ce, cx, ce, ce, ce, ce],
      grid [co, ce, ce, ce, cx, ce, ce, ce, ce],
      grid [co, ce, cx, ce, cx, ce, ce, ce, ce],
      grid [co, co, cx, ce, cx, ce, ce, ce, ce],
      grid [co, co, cx, ce, cx, ce, cx, ce, ce]]"

abbreviation (input) centre_game :: "squares list" where
  "centre_game \<equiv>
     [emptyBoard,
      grid [cx, ce, ce, ce, ce, ce, ce, ce, ce],
      grid [cx, ce, ce, ce, co, ce, ce, ce, ce],
      grid [cx, cx, ce, ce, co, ce, ce, ce, ce],
      grid [cx, cx, ce, co, co, ce, ce, ce, ce],
      grid [cx, cx, ce, co, co, ce, ce, ce, cx]]"


section \<open>Properties of calculateWinner\<close>

lemma scan_Cons_complete:
  "scan sq (l # ls) =
     (if complete sq l then \<lparr>winner = idx sq (fst l), line = [fst l, fst (snd l), snd (snd l)]\<rparr>
      else scan sq ls)"
  by (cases l) (auto simp: complete_def)

lemma scan_find:
  "scan sq ls =
     (case List.find (complete sq) ls of
        None \<Rightarrow> \<lparr>winner = None, line = []\<rparr>
      | Some (a, b, c) \<Rightarrow> \<lparr>winner = idx sq a, line = [a, b, c]\<rparr>)"
proof (induction ls)
  case Nil
  show ?case by simp
next
  case (Cons l ls)
  show ?case
  proof (cases "complete sq l")
    case True
    then show ?thesis by (cases l) (simp add: scan_Cons_complete del: scan.simps)
  next
    case False
    then show ?thesis using Cons.IH by (simp add: scan_Cons_complete del: scan.simps)
  qed
qed

text \<open>
  C1. \<open>calculateWinner\<close> goes through the eight lines in the order rows from the
  top, columns from the left, the diagonal from the top left, the diagonal from the
  top right, and returns the first of them whose three cells hold the same mark,
  with that mark and that line; the status is then \<open>Won\<close> with that mark and that
  line. When several lines are complete it is the one scanned first that is
  returned; when none is, there is no winner and the line is empty.
\<close>

theorem calculateWinner_first_complete_line:
  "lines = [(0, 1, 2), (3, 4, 5), (6, 7, 8), (0, 3, 6), (1, 4, 7), (2, 5, 8), (0, 4, 8), (2, 4, 6)] \<and>
   calculateWinner sq =
     (case List.find (complete sq) lines of
        None \<Rightarrow> \<lparr>winner = None, line = []\<rparr>
      | Some (a, b, c) \<Rightarrow> \<lparr>winner = idx sq a, line = [a, b, c]\<rparr>) \<and>
   (\<forall>k a b c. k < length lines \<and> lines ! k = (a, b, c) \<and> complete sq (a, b, c) \<and>
        (\<forall>j<k. \<not> complete sq (lines ! j)) \<longrightarrow>
      (\<exists>m. idx sq a = Some m \<and> idx sq b = Some m \<and> idx sq c = Some m \<and>
           calculateWinner sq = \<lparr>winner = Some m, line = [a, b, c]\<rparr> \<and>
           statusOf sq xNext = Won m [a, b, c])) \<and>
   ((\<forall>k<length lines. \<not> complete sq (lines ! k)) \<longrightarrow>
      calculateWinner sq = \<lparr>winner = None, line = []\<rparr>)"
proof (intro conjI allI impI)
  show "lines = [(0, 1, 2), (3, 4, 5), (6, 7, 8), (0, 3, 6), (1, 4, 7), (2, 5, 8), (0, 4, 8), (2, 4, 6)]"
    by (simp add: lines_def)
  show cw: "calculateWinner sq =
     (case List.find (complete sq) lines of
        None \<Rightarrow> \<lparr>winner = None, line = []\<rparr>
      | Some (a, b, c) \<Rightarrow> \<lparr>winner = idx sq a, line = [a, b, c]\<rparr>)"
    unfolding calculateWinner_def by (rule scan_find)
  {
    fix k a b c
    assume h: "k < length lines \<and> lines ! k = (a, b, c) \<and> complete sq (a, b, c) \<and>
        (\<forall>j<k. \<not> complete sq (lines ! j))"
    then have "List.find (complete sq) lines = Some (a, b, c)"
      unfolding find_Some_iff by (intro exI [of _ k]) simp
    then have r: "calculateWinner sq = \<lparr>winner = idx sq a, line = [a, b, c]\<rparr>"
      using cw by simp
    from h obtain m where m: "idx sq a = Some m" "idx sq b = Some m" "idx sq c = Some m"
      by (auto simp: complete_def)
    with r have "statusOf sq xNext = Won m [a, b, c]" by (simp add: statusOf_def)
    with r m show "\<exists>m. idx sq a = Some m \<and> idx sq b = Some m \<and> idx sq c = Some m \<and>
           calculateWinner sq = \<lparr>winner = Some m, line = [a, b, c]\<rparr> \<and>
           statusOf sq xNext = Won m [a, b, c]" by simp
  }
  {
    assume "\<forall>k<length lines. \<not> complete sq (lines ! k)"
    then have "List.find (complete sq) lines = None"
      unfolding find_None_iff by (metis in_set_conv_nth)
    then show "calculateWinner sq = \<lparr>winner = None, line = []\<rparr>" using cw by simp
  }
qed

theorem calculateWinner_first_complete_line_witness:
  "complete (grid [cx, co, co, cx, cx, co, cx, ce, cx]) (0, 3, 6) \<and>
   complete (grid [cx, co, co, cx, cx, co, cx, ce, cx]) (0, 4, 8) \<and>
   lines ! 3 = (0, 3, 6) \<and> lines ! 6 = (0, 4, 8) \<and>
   \<not> complete (grid [cx, co, co, cx, cx, co, cx, ce, cx]) (lines ! 0) \<and>
   \<not> complete (grid [cx, co, co, cx, cx, co, cx, ce, cx]) (lines ! 1) \<and>
   \<not> complete (grid [cx, co, co, cx, cx, co, cx, ce, cx]) (lines ! 2) \<and>
   calculateWinner (grid [cx, co, co, cx, cx, co, cx, ce, cx]) =
     \<lparr>winner = Some MarkX, line = [0, 3, 6]\<rparr> \<and>
   statusOf (grid [cx, co, co, cx, cx, co, cx, ce, cx]) True = Won MarkX [0, 3, 6]"
proof -
  let ?b = "grid [cx, co, co, cx, cx, co, cx, ce, cx]"
  have c: "complete ?b (0, 3, 6)" "complete ?b (0, 4, 8)"
    by (simp_all add: complete_def idx_def array_index_def)
  have l: "lines ! 3 = (0, 3, 6)" "lines ! 6 = (0, 4, 8)" "(3::nat) < length lines"
    by (simp_all add: lines_def)
  have n: "\<not> complete ?b (lines ! 0)" "\<not> complete ?b (lines ! 1)" "\<not> complete ?b (lines ! 2)"
    by (simp_all add: lines_def complete_def idx_def array_index_def)
  have first: "\<forall>j<3. \<not> complete ?b (lines ! j)"
  proof (intro allI impI)
    fix j :: nat assume "j < 3"
    then consider "j = 0" | "j = 1" | "j = 2" by linarith
    then show "\<not> complete ?b (lines ! j)" using n by cases simp_all
  qed
  from calculateWinner_first_complete_line [of ?b True] l(1,3) c(1) first
  obtain m where m: "idx ?b 0 = Some m"
    "calculateWinner ?b = \<lparr>winner = Some m, line = [0, 3, 6]\<rparr>"
    "statusOf ?b True = Won m [0, 3, 6]"
    by blast
  have "idx ?b 0 = Some MarkX" by (simp add: idx_def array_index_def)
  with m have "m = MarkX" by simp
  with m c l n show ?thesis by simp
qed

section \<open>Histories of reachable states\<close>

lemma currentSquares_ok:
  "history_ok s \<Longrightarrow> currentSquares s = Some (history s ! step s)"
  by (simp add: history_ok_def currentSquares_def)

lemma filter_update_count:
  "k < length xs \<Longrightarrow> \<not> P (xs ! k) \<Longrightarrow> P y \<Longrightarrow>
   length (filter P (xs[k := y])) = Suc (length (filter P xs))"
proof (induction xs arbitrary: k)
  case Nil
  then show ?case by simp
next
  case (Cons x xs)
  then show ?case by (cases k) auto
qed

lemma placed_elems:
  assumes "placed m b b'"
  shows "\<exists>k<9. elems b ! k = None \<and> elems b' = (elems b)[k := Some m]"
proof -
  from assms obtain k where k: "k < 9" "elems b ! k = None" "elems b' ! k = Some m"
    and rest: "\<forall>j<9. j \<noteq> k \<longrightarrow> elems b' ! j = elems b ! j"
    and len: "length (elems b) = 9" "length (elems b') = 9"
    by (auto simp: placed_def board9_def)
  have "elems b' = (elems b)[k := Some m]"
  proof (rule nth_equalityI)
    show "length (elems b') = length ((elems b)[k := Some m])" using len by simp
  next
    fix j assume "j < length (elems b')"
    then have "j < 9" using len by simp
    then show "elems b' ! j = (elems b)[k := Some m] ! j"
      using k rest len by (cases "j = k") auto
  qed
  with k show ?thesis by blast
qed

lemma placed_movesPlayed:
  assumes "placed m b b'"
  shows "movesPlayed b' = Suc (movesPlayed b)"
proof -
  from placed_elems [OF assms] obtain k where k: "k < 9" "elems b ! k = None"
    "elems b' = (elems b)[k := Some m]" by blast
  have len: "k < length (elems b)" using assms k by (simp add: placed_def board9_def)
  have "length (filter (\<lambda>c. c \<noteq> None) ((elems b)[k := Some m])) =
        Suc (length (filter (\<lambda>c. c \<noteq> None) (elems b)))"
    by (rule filter_update_count [OF len]) (simp_all add: k)
  then show ?thesis unfolding movesPlayed_def k(3) .
qed

lemma board9_emptyBoard: "board9 emptyBoard"
  by (simp add: board9_def emptyBoard_def)

lemma movesPlayed_emptyBoard: "movesPlayed emptyBoard = 0"
  by (simp add: movesPlayed_def emptyBoard_def)

lemma history_ok_snapshot:
  assumes "history_ok s"
  shows "k < length (history s) \<Longrightarrow> board9 (history s ! k) \<and> movesPlayed (history s ! k) = k"
proof (induction k)
  case 0
  then show ?case using assms
    by (simp add: history_ok_def board9_emptyBoard movesPlayed_emptyBoard)
next
  case (Suc k)
  then have "placed (if even k then MarkX else MarkO) (history s ! k) (history s ! Suc k)"
    using assms by (simp add: history_ok_def)
  then have pl: "placed (if even k then MarkX else MarkO) (history s ! k) (history s ! Suc k)" .
  have "movesPlayed (history s ! k) = k" using Suc by simp
  then have "movesPlayed (history s ! Suc k) = Suc k"
    using placed_movesPlayed [OF pl] by simp
  moreover have "board9 (history s ! Suc k)" using pl by (simp add: placed_def)
  ultimately show ?case by simp
qed

lemma assign_slice_cell:
  assumes "board9 cur" "0 \<le> i" "i \<le> 8" "idx cur i = None"
  shows "placed m cur (assign (slice cur) i m)"
proof -
  have ai: "array_index i" using assms by (simp add: array_index_def)
  have lt: "nat i < 9" using assms by simp
  have len: "length (elems cur) = 9" using assms by (simp add: board9_def)
  have none: "elems cur ! nat i = None" using assms ai lt len by (simp add: idx_def)
  have eq: "assign (slice cur) i m = \<lparr>elems = (elems cur)[nat i := Some m], props = Map.empty\<rparr>"
    using ai lt len by (simp add: assign_def slice_def)
  show ?thesis unfolding placed_def eq
    using assms(1) lt len none by (auto simp: board9_def intro!: exI [of _ "nat i"])
qed

lemma history_ok_push:
  assumes ok: "history_ok s" and i: "0 \<le> i" "i \<le> 8"
    and free: "idx (history s ! step s) i = None"
    and h: "history s' =
              take (step s + 1) (history s) @
              [assign (slice (history s ! step s)) i (if even (step s) then MarkX else MarkO)]"
    and st: "step s' = step s + 1"
  shows "history_ok s'"
proof -
  let ?next = "assign (slice (history s ! step s)) i (if even (step s) then MarkX else MarkO)"
  from ok have lt: "step s < length (history s)" and ne: "history s \<noteq> []"
    and h0: "history s ! 0 = emptyBoard" by (simp_all add: history_ok_def)
  have len: "length (history s') = step s + 2" using h lt by simp
  have old: "\<And>j. j \<le> step s \<Longrightarrow> history s' ! j = history s ! j"
    using h lt by (simp add: nth_append)
  have new: "history s' ! Suc (step s) = ?next"
    using h lt by (simp add: nth_append)
  have b9: "board9 (history s ! step s)" using history_ok_snapshot [OF ok lt] by simp
  have pl: "placed (if even (step s) then MarkX else MarkO) (history s ! step s) ?next"
    using assign_slice_cell [OF b9 i free] .
  have "placed (if even j then MarkX else MarkO) (history s' ! j) (history s' ! Suc j)"
    if "Suc j < length (history s')" for j
  proof (cases "j = step s")
    case True
    then show ?thesis using pl old [of "step s"] new by simp
  next
    case False
    with that len have j: "Suc j \<le> step s" by simp
    then have "Suc j < length (history s)" using lt by simp
    then have "placed (if even j then MarkX else MarkO) (history s ! j) (history s ! Suc j)"
      using ok by (simp add: history_ok_def)
    then show ?thesis using old [of j] old [of "Suc j"] j by simp
  qed
  moreover have "history s' ! 0 = emptyBoard" using old [of 0] h0 by simp
  moreover have "history s' \<noteq> []" using h by simp
  moreover have "step s' < length (history s')" using st len by simp
  ultimately show ?thesis by (simp add: history_ok_def)
qed

lemma history_ok_fresh:
  "history s' = [emptyBoard] \<Longrightarrow> step s' = 0 \<Longrightarrow> history_ok s'"
  by (simp add: history_ok_def)

lemma handlePlay_nav_ok:
  assumes "history_ok s"
  shows "handlePlay_nav i s =
          Inr (if idx (history s ! step s) i \<noteq> None \<or>
                  winner (calculateWinner (history s ! step s)) \<noteq> None
               then s
               else s\<lparr>history := take (step s + 1) (history s) @
                        [assign (slice (history s ! step s)) i
                           (if even (step s) then MarkX else MarkO)],
                      step := step s + 1\<rparr>)"
  using currentSquares_ok [OF assms]
  by (simp add: handlePlay_nav_def xIsNext_nav_def Let_def even_iff_mod_2_eq_zero)

lemma handlePlay_ok:
  assumes "history_ok s"
  shows "handlePlay i s =
          Inr (if idx (history s ! step s) i \<noteq> None \<or>
                  winner (calculateWinner (history s ! step s)) \<noteq> None
               then s
               else s\<lparr>history := take (step s + 1) (history s) @
                        [assign (slice (history s ! step s)) i
                           (if xIsNext s then MarkX else MarkO)],
                      step := step s + 1, xIsNext := \<not> xIsNext s\<rparr>)"
  using currentSquares_ok [OF assms]
  by (simp add: handlePlay_def Let_def)

lemma handleUndo_nav_ok:
  assumes "history_ok s"
  shows "handleUndo_nav s = Inr (if step s > 0 then s\<lparr>step := step s - 1\<rparr> else s)"
  using currentSquares_ok [OF assms] by (simp add: handleUndo_nav_def)

lemma handleUndo_ok:
  assumes "history_ok s"
  shows "handleUndo s =
          Inr (if step s > 0 \<and> winner (calculateWinner (history s ! step s)) = None
               then s\<lparr>step := step s - 1, xIsNext := \<not> xIsNext s\<rparr> else s)"
  using currentSquares_ok [OF assms] by (simp add: handleUndo_def)

lemma handleRedo_ok:
  assumes "history_ok s"
  shows "handleRedo s = Inr (if Suc (step s) < length (history s) then s\<lparr>step := step s + 1\<rparr> else s)"
  using currentSquares_ok [OF assms] by (auto simp: handleRedo_def)

lemma jumpTo_ok:
  assumes "history_ok s"
  shows "jumpTo m s =
          Inr (if 0 \<le> m \<and> m < int (length (history s)) then s\<lparr>step := nat m\<rparr> else s)"
  using currentSquares_ok [OF assms] by (simp add: jumpTo_def)

lemma handleReset_nav_ok:
  assumes "history_ok s"
  shows "handleReset_nav s = Inr (s\<lparr>history := [emptyBoard], step := 0\<rparr>)"
  using currentSquares_ok [OF assms] by (simp add: handleReset_nav_def)

lemma handleReset_ok:
  assumes "history_ok s"
  shows "handleReset s = Inr (s\<lparr>history := [emptyBoard], step := 0, xIsNext := True\<rparr>)"
  using currentSquares_ok [OF assms] by (simp add: handleReset_def)

lemma history_ok_play_nav:
  assumes ok: "history_ok s" and i: "0 \<le> i" "i \<le> 8" and p: "handlePlay_nav i s = Inr s'"
  shows "history_ok s'"
proof (cases "idx (history s ! step s) i \<noteq> None \<or>
              winner (calculateWinner (history s ! step s)) \<noteq> None")
  case True
  then have "s' = s" using p handlePlay_nav_ok [OF ok, of i] by simp
  then show ?thesis using ok by simp
next
  case False
  then have s': "s' = s\<lparr>history := take (step s + 1) (history s) @
                        [assign (slice (history s ! step s)) i
                           (if even (step s) then MarkX else MarkO)],
                      step := step s + 1\<rparr>"
    using p handlePlay_nav_ok [OF ok, of i] by simp
  show ?thesis
    by (rule history_ok_push [OF ok i]) (use False s' in simp_all)
qed

lemma reachable_nav_history_ok: "reachable_nav s \<Longrightarrow> history_ok s"
proof (induction rule: reachable_nav.induct)
  case start
  show ?case by (simp add: history_ok_fresh initial_nav_def)
next
  case (play s i s')
  then show ?case by (blast intro: history_ok_play_nav)
next
  case (undo s s')
  then have "s' = (if step s > 0 then s\<lparr>step := step s - 1\<rparr> else s)"
    using handleUndo_nav_ok [of s] by simp
  with undo.IH show ?case by (auto simp: history_ok_def)
next
  case (redo s s')
  then have "s' = (if Suc (step s) < length (history s) then s\<lparr>step := step s + 1\<rparr> else s)"
    using handleRedo_ok [of s] by simp
  with redo.IH show ?case by (auto simp: history_ok_def)
next
  case (jump s m s')
  then have "s' = (if 0 \<le> m \<and> m < int (length (history s)) then s\<lparr>step := nat m\<rparr> else s)"
    using jumpTo_ok [of s m] by simp
  with jump.IH show ?case by (auto simp: history_ok_def)
next
  case (reset s s')
  then have "s' = s\<lparr>history := [emptyBoard], step := 0\<rparr>"
    using handleReset_nav_ok [of s] by simp
  then show ?case by (simp add: history_ok_fresh)
qed

lemma flag_ok_play:
  assumes ok: "flag_ok s" and i: "0 \<le> i" "i \<le> 8" and p: "handlePlay i s = Inr s'"
  shows "flag_ok s'"
proof (cases "idx (history s ! step s) i \<noteq> None \<or>
              winner (calculateWinner (history s ! step s)) \<noteq> None")
  case True
  then have "s' = s" using p handlePlay_ok [of s i] ok by (simp add: flag_ok_def)
  then show ?thesis using ok by simp
next
  case False
  from ok have hok: "history_ok s" and fl: "xIsNext s = even (step s)"
    by (simp_all add: flag_ok_def)
  from False have s': "s' = s\<lparr>history := take (step s + 1) (history s) @
                        [assign (slice (history s ! step s)) i
                           (if even (step s) then MarkX else MarkO)],
                      step := step s + 1, xIsNext := \<not> xIsNext s\<rparr>"
    using p handlePlay_ok [OF hok, of i] fl by simp
  have "history_ok s'"
    by (rule history_ok_push [OF hok i]) (use False s' in simp_all)
  moreover have "xIsNext s' = even (step s')" using s' fl by simp
  ultimately show ?thesis by (simp add: flag_ok_def)
qed

lemma reachable_flag_ok: "reachable s \<Longrightarrow> flag_ok s"
proof (induction rule: reachable.induct)
  case start
  show ?case by (simp add: flag_ok_def history_ok_fresh initial_def)
next
  case (play s i s')
  then show ?case by (blast intro: flag_ok_play)
next
  case (undo s s')
  then have ok: "history_ok s" and fl: "xIsNext s = even (step s)" by (simp_all add: flag_ok_def)
  from undo have "s' = (if step s > 0 \<and> winner (calculateWinner (history s ! step s)) = None
               then s\<lparr>step := step s - 1, xIsNext := \<not> xIsNext s\<rparr> else s)"
    using handleUndo_ok [OF ok] by simp
  with ok fl show ?case by (auto simp: flag_ok_def history_ok_def)
next
  case (reset s s')
  then have "s' = s\<lparr>history := [emptyBoard], step := 0, xIsNext := True\<rparr>"
    using handleReset_ok [of s] by (simp add: flag_ok_def)
  then show ?case by (simp add: flag_ok_def history_ok_fresh)
qed

section \<open>Draws\<close>

lemma winner_None_iff:
  "winner (calculateWinner sq) = None \<longleftrightarrow> (\<forall>l\<in>set lines. \<not> complete sq l)"
proof (cases "List.find (complete sq) lines")
  case None
  then have "\<forall>l\<in>set lines. \<not> complete sq l"
    by (simp only: find_None_iff) blast
  moreover have "winner (calculateWinner sq) = None"
    using None by (simp add: calculateWinner_def scan_find)
  ultimately show ?thesis by simp
next
  case (Some l)
  then have l: "complete sq l" "l \<in> set lines"
    by (auto simp: find_Some_iff)
  obtain a b c where abc: "l = (a, b, c)" by (cases l)
  with l have "idx sq a \<noteq> None" by (auto simp: complete_def)
  then have "winner (calculateWinner sq) \<noteq> None"
    using Some abc by (simp add: calculateWinner_def scan_find)
  with l show ?thesis by blast
qed

lemma movesPlayed_full:
  "(\<forall>c\<in>set (elems sq). c \<noteq> None) \<Longrightarrow> movesPlayed sq = length (elems sq)"
  by (simp add: movesPlayed_def)

text \<open>
  C2. A board whose nine cells all hold a mark and on which no line is complete is a
  draw: \<open>isDraw\<close> holds and the status is \<open>Draw\<close>, whoever's turn the state
  records. An example is the board X,O,X / X,O,O / O,X,X.
\<close>

theorem full_board_without_line_is_draw:
  assumes "length (elems sq) = 9"
    and "\<forall>c\<in>set (elems sq). c \<noteq> None"
    and "\<forall>l\<in>set lines. \<not> complete sq l"
  shows "isDraw sq \<and> statusOf sq xNext = Draw"
proof -
  have w: "winner (calculateWinner sq) = None"
    using assms(3) by (simp add: winner_None_iff)
  moreover have "movesPlayed sq = 9"
    using movesPlayed_full [OF assms(2)] assms(1) by simp
  ultimately have "isDraw sq" by (simp add: isDraw_def)
  then show ?thesis using w by (simp add: statusOf_def)
qed

theorem full_board_without_line_is_draw_witness:
  "length (elems \<lparr>elems = [Some MarkX, Some MarkO, Some MarkX,
                          Some MarkX, Some MarkO, Some MarkO,
                          Some MarkO, Some MarkX, Some MarkX], props = Map.empty\<rparr>) = 9 \<and>
   None \<notin> set (elems \<lparr>elems = [Some MarkX, Some MarkO, Some MarkX,
                             Some MarkX, Some MarkO, Some MarkO,
                             Some MarkO, Some MarkX, Some MarkX], props = Map.empty\<rparr>) \<and>
   List.find (complete \<lparr>elems = [Some MarkX, Some MarkO, Some MarkX,
                               Some MarkX, Some MarkO, Some MarkO,
                               Some MarkO, Some MarkX, Some MarkX], props = Map.empty\<rparr>)
     lines = None \<and>
   isDraw \<lparr>elems = [Some MarkX, Some MarkO, Some MarkX,
                    Some MarkX, Some MarkO, Some MarkO,
                    Some MarkO, Some MarkX, Some MarkX], props = Map.empty\<rparr> \<and>
   statusOf \<lparr>elems = [Some MarkX, Some MarkO, Some MarkX,
                      Some MarkX, Some MarkO, Some MarkO,
                      Some MarkO, Some MarkX, Some MarkX], props = Map.empty\<rparr> True = Draw"
proof -
  let ?b = "\<lparr>elems = [Some MarkX, Some MarkO, Some MarkX,
                      Some MarkX, Some MarkO, Some MarkO,
                      Some MarkO, Some MarkX, Some MarkX], props = Map.empty\<rparr>"
  have 1: "length (elems ?b) = 9" by simp
  have 2: "\<forall>c\<in>set (elems ?b). c \<noteq> None" by simp
  have 3: "\<forall>l\<in>set lines. \<not> complete ?b l"
    by (simp add: lines_def complete_def idx_def array_index_def)
  have 4: "List.find (complete ?b) lines = None"
    using 3 by (simp only: find_None_iff) blast
  have 5: "None \<notin> set (elems ?b)" by simp
  show ?thesis using 1 4 5 full_board_without_line_is_draw [OF 1 2 3, of True] by blast
qed

section \<open>Scenarios and evaluation\<close>

lemma reachable_clicks:
  "reachable s \<Longrightarrow> \<forall>i\<in>set js. 0 \<le> i \<and> i \<le> 8 \<Longrightarrow> clicks js s = Inr s' \<Longrightarrow> reachable s'"
proof (induction js arbitrary: s)
  case Nil
  then show ?case by simp
next
  case (Cons i js)
  then obtain s1 where s1: "handlePlay i s = Inr s1" "clicks js s1 = Inr s'"
    by (auto split: sum.splits)
  with Cons.prems have "reachable s1" by (auto intro: reachable.play)
  with Cons s1 show ?case by simp
qed

lemma reachable_nav_clicks:
  "reachable_nav s \<Longrightarrow> \<forall>i\<in>set js. 0 \<le> i \<and> i \<le> 8 \<Longrightarrow> clicks_nav js s = Inr s'
   \<Longrightarrow> reachable_nav s'"
proof (induction js arbitrary: s)
  case Nil
  then show ?case by simp
next
  case (Cons i js)
  then obtain s1 where s1: "handlePlay_nav i s = Inr s1" "clicks_nav js s1 = Inr s'"
    by (auto split: sum.splits)
  with Cons.prems have "reachable_nav s1" by (auto intro: reachable_nav.play)
  with Cons s1 show ?case by simp
qed

lemma emptyBoard_cells:
  "emptyBoard =
     \<lparr>elems = [None, None, None, None, None, None, None, None, None], props = Map.empty\<rparr>"
  by (simp add: emptyBoard_def eval_nat_numeral)

lemmas run_app =
  handlePlay_def handleUndo_def handleReset_def currentStatus_def currentSquares_def initial_def
  emptyBoard_cells idx_def array_index_def calculateWinner_def lines_def assign_def slice_def
  statusOf_def isDraw_def movesPlayed_def Let_def

lemmas run_nav =
  handlePlay_nav_def handleUndo_nav_def handleReset_nav_def handleRedo_def jumpTo_def
  currentStatus_nav_def xIsNext_nav_def currentSquares_def initial_nav_def
  emptyBoard_cells idx_def array_index_def calculateWinner_def lines_def assign_def slice_def
  statusOf_def isDraw_def movesPlayed_def Let_def

section \<open>Whose turn it is\<close>

lemma not_draw_with_empty_cell:
  assumes "board9 cur" "None \<in> set (elems cur)"
  shows "\<not> isDraw cur"
proof -
  have "length (filter (\<lambda>c. c \<noteq> None) (elems cur)) < length (elems cur)"
    by (rule length_filter_less [OF assms(2)]) simp
  then show ?thesis using assms(1) by (simp add: isDraw_def movesPlayed_def board9_def)
qed

lemma current_of_ok:
  assumes "history_ok s" "currentSquares s = Some cur"
  shows "cur = history s ! step s" "board9 cur" "movesPlayed cur = step s"
proof -
  show c: "cur = history s ! step s" using assms currentSquares_ok by fastforce
  have "step s < length (history s)" using assms(1) by (simp add: history_ok_def)
  from history_ok_snapshot [OF assms(1) this] c
  show "board9 cur" "movesPlayed cur = step s" by simp_all
qed

text \<open>
  C3. In a reachable state whose current board has an empty cell and no complete line,
  the status is \<open>InProgress\<close> with the mark X when the number of marked cells of
  that board is even and O when it is odd, and a play on an empty cell puts exactly
  that mark there. This holds for the stored flag \<open>xIsNext\<close> of App.js as for the
  parity of \<open>step\<close> in the form with the move list.
\<close>

theorem next_mark_follows_parity:
  "(reachable s \<and> currentSquares s = Some cur \<and> None \<in> set (elems cur) \<and>
    winner (calculateWinner cur) = None \<longrightarrow>
      currentStatus s = Inr (InProgress (if even (movesPlayed cur) then MarkX else MarkO)) \<and>
      (\<forall>i. 0 \<le> i \<and> i \<le> 8 \<and> idx cur i = None \<longrightarrow>
         (\<exists>s'. handlePlay i s = Inr s' \<and>
               currentSquares s' =
                 Some (assign (slice cur) i (if even (movesPlayed cur) then MarkX else MarkO))))) \<and>
   (reachable_nav t \<and> currentSquares t = Some cur' \<and> None \<in> set (elems cur') \<and>
    winner (calculateWinner cur') = None \<longrightarrow>
      currentStatus_nav t = Inr (InProgress (if even (movesPlayed cur') then MarkX else MarkO)) \<and>
      (\<forall>i. 0 \<le> i \<and> i \<le> 8 \<and> idx cur' i = None \<longrightarrow>
         (\<exists>t'. handlePlay_nav i t = Inr t' \<and>
               currentSquares t' =
                 Some (assign (slice cur') i (if even (movesPlayed cur') then MarkX else MarkO)))))"
proof (intro conjI impI; (elim conjE)?)
  assume r: "reachable s" and c: "currentSquares s = Some cur"
    and e: "None \<in> set (elems cur)" and w: "winner (calculateWinner cur) = None"
  from reachable_flag_ok [OF r] have ok: "history_ok s" and fl: "xIsNext s = even (step s)"
    by (simp_all add: flag_ok_def)
  note cur = current_of_ok [OF ok c]
  have lt: "step s < length (history s)" using ok by (simp add: history_ok_def)
  have nd: "\<not> isDraw cur" using not_draw_with_empty_cell [OF cur(2) e] .
  show "currentStatus s = Inr (InProgress (if even (movesPlayed cur) then MarkX else MarkO))"
    using c w nd fl cur(3) by (simp add: currentStatus_def statusOf_def)
  show "\<forall>i. 0 \<le> i \<and> i \<le> 8 \<and> idx cur i = None \<longrightarrow>
         (\<exists>s'. handlePlay i s = Inr s' \<and>
               currentSquares s' =
                 Some (assign (slice cur) i (if even (movesPlayed cur) then MarkX else MarkO)))"
    using handlePlay_ok [OF ok] w fl cur(1,3) lt
    by (simp add: currentSquares_def nth_append)
next
  assume r: "reachable_nav t" and c: "currentSquares t = Some cur'"
    and e: "None \<in> set (elems cur')" and w: "winner (calculateWinner cur') = None"
  from reachable_nav_history_ok [OF r] have ok: "history_ok t" .
  note cur = current_of_ok [OF ok c]
  have lt: "step t < length (history t)" using ok by (simp add: history_ok_def)
  have nd: "\<not> isDraw cur'" using not_draw_with_empty_cell [OF cur(2) e] .
  show "currentStatus_nav t = Inr (InProgress (if even (movesPlayed cur') then MarkX else MarkO))"
    using c w nd cur(3)
    by (simp add: currentStatus_nav_def statusOf_def xIsNext_nav_def even_iff_mod_2_eq_zero)
  show "\<forall>i. 0 \<le> i \<and> i \<le> 8 \<and> idx cur' i = None \<longrightarrow>
         (\<exists>t'. handlePlay_nav i t = Inr t' \<and>
               currentSquares t' =
                 Some (assign (slice cur') i (if even (movesPlayed cur') then MarkX else MarkO)))"
    using handlePlay_nav_ok [OF ok] w cur(1,3) lt
    by (simp add: currentSquares_def nth_append)
qed

theorem next_mark_follows_parity_witness:
  "(\<exists>s cur. clicks [0] initial = Inr s \<and> reachable s \<and> currentSquares s = Some cur \<and>
      None \<in> set (elems cur) \<and> winner (calculateWinner cur) = None \<and> movesPlayed cur = 1 \<and>
      currentStatus s = Inr (InProgress MarkO)) \<and>
   (\<exists>t cur. clicks_nav [0, 4] initial_nav = Inr t \<and> reachable_nav t \<and>
      currentSquares t = Some cur \<and>
      None \<in> set (elems cur) \<and> winner (calculateWinner cur) = None \<and> movesPlayed cur = 2 \<and>
      currentStatus_nav t = Inr (InProgress MarkX))"
proof -
  have "\<exists>s cur. clicks [0] initial = Inr s \<and> currentSquares s = Some cur \<and>
      None \<in> set (elems cur) \<and> winner (calculateWinner cur) = None \<and> movesPlayed cur = 1"
    by (simp add: run_app)
  then obtain s cur where s: "clicks [0] initial = Inr s" "currentSquares s = Some cur"
    "None \<in> set (elems cur)" "winner (calculateWinner cur) = None" "movesPlayed cur = 1"
    by blast
  have rs: "reachable s"
    by (rule reachable_clicks [OF reachable.start _ s(1)]) simp
  have "\<exists>t cur. clicks_nav [0, 4] initial_nav = Inr t \<and> currentSquares t = Some cur \<and>
      None \<in> set (elems cur) \<and> winner (calculateWinner cur) = None \<and> movesPlayed cur = 2"
    by (simp add: run_nav)
  then obtain t cur' where t: "clicks_nav [0, 4] initial_nav = Inr t"
    "currentSquares t = Some cur'"
    "None \<in> set (elems cur')" "winner (calculateWinner cur') = None" "movesPlayed cur' = 2"
    by blast
  have rt: "reachable_nav t"
    by (rule reachable_nav_clicks [OF reachable_nav.start _ t(1)]) simp
  from next_mark_follows_parity [of s cur t cur'] rs rt s t
  have "currentStatus s = Inr (InProgress MarkO)"
    and "currentStatus_nav t = Inr (InProgress MarkX)" by simp_all
  with rs rt s t show ?thesis by blast
qed

section \<open>The invariant of the history\<close>

text \<open>
  C4. In every state reachable by plays, undos and resets (App.js), and by plays,
  undos, redos, jumps and resets (the form with the move list), the first snapshot
  is the empty board of nine cells, \<open>step\<close> is an index into \<open>history\<close>, and
  each snapshot differs from the one before in exactly one cell, empty before and
  marked after, with X placed from the snapshots of even index and O from those of
  odd index.
\<close>

theorem history_invariant:
  "(reachable s \<longrightarrow>
      history s ! 0 = emptyBoard \<and> step s < length (history s) \<and>
      (\<forall>i. Suc i < length (history s) \<longrightarrow>
         placed (if even i then MarkX else MarkO) (history s ! i) (history s ! Suc i))) \<and>
   (reachable_nav t \<longrightarrow>
      history t ! 0 = emptyBoard \<and> step t < length (history t) \<and>
      (\<forall>i. Suc i < length (history t) \<longrightarrow>
         placed (if even i then MarkX else MarkO) (history t ! i) (history t ! Suc i)))"
  using reachable_flag_ok [of s] reachable_nav_history_ok [of t]
  by (simp add: flag_ok_def history_ok_def)

theorem history_invariant_witness:
  "(\<exists>s. clicks [0, 4] initial = Inr s \<and> reachable s \<and>
      history s ! 0 = emptyBoard \<and> step s < length (history s) \<and>
      placed MarkX (history s ! 0) (history s ! 1) \<and>
      placed MarkO (history s ! 1) (history s ! 2)) \<and>
   (\<exists>t u. clicks_nav [0, 4] initial_nav = Inr t \<and> handleUndo_nav t = Inr u \<and> reachable_nav u \<and>
      length (history u) = 3 \<and> step u = 1 \<and>
      history u ! 0 = emptyBoard \<and> step u < length (history u) \<and>
      placed MarkX (history u ! 0) (history u ! 1) \<and>
      placed MarkO (history u ! 1) (history u ! 2))"
proof -
  have "\<exists>s. clicks [0, 4] initial = Inr s \<and> length (history s) = 3"
    by (simp add: run_app)
  then obtain s where s: "clicks [0, 4] initial = Inr s" "length (history s) = 3" by blast
  have rs: "reachable s"
    by (rule reachable_clicks [OF reachable.start _ s(1)]) simp
  have "\<exists>t u. clicks_nav [0, 4] initial_nav = Inr t \<and> handleUndo_nav t = Inr u \<and>
      length (history u) = 3 \<and> step u = 1"
    by (simp add: run_nav)
  then obtain t u where t: "clicks_nav [0, 4] initial_nav = Inr t" "handleUndo_nav t = Inr u"
    "length (history u) = 3" "step u = 1" by blast
  have "reachable_nav t"
    by (rule reachable_nav_clicks [OF reachable_nav.start _ t(1)]) simp
  then have ru: "reachable_nav u" using t(2) by (rule reachable_nav.undo)
  from history_invariant [of s u] rs ru
  have inv: "history s ! 0 = emptyBoard" "step s < length (history s)"
      "\<And>i. Suc i < length (history s) \<Longrightarrow>
         placed (if even i then MarkX else MarkO) (history s ! i) (history s ! Suc i)"
      "history u ! 0 = emptyBoard" "step u < length (history u)"
      "\<And>i. Suc i < length (history u) \<Longrightarrow>
         placed (if even i then MarkX else MarkO) (history u ! i) (history u ! Suc i)"
    by simp_all
  have "placed MarkX (history s ! 0) (history s ! 1)" using inv(3) [of 0] s(2) by simp
  moreover have "placed MarkO (history s ! 1) (history s ! 2)"
    using inv(3) [of 1] s(2) by (simp add: numeral_2_eq_2)
  moreover have "placed MarkX (history u ! 0) (history u ! 1)" using inv(6) [of 0] t(3) by simp
  moreover have "placed MarkO (history u ! 1) (history u ! 2)"
    using inv(6) [of 1] t(3) by (simp add: numeral_2_eq_2)
  ultimately show ?thesis using rs ru s t inv(1,2,4,5) by blast
qed

section \<open>Plays that are turned down\<close>







section \<open>A play cuts the history at the cursor\<close>

lemma played_state:
  assumes ok: "history_ok s" and p: "handlePlay i s = Inr s'" and ne: "s' \<noteq> s"
  shows "idx (history s ! step s) i = None"
    and "winner (calculateWinner (history s ! step s)) = None"
    and "s' = s\<lparr>history := take (step s + 1) (history s) @
                  [assign (slice (history s ! step s)) i (if xIsNext s then MarkX else MarkO)],
                step := step s + 1, xIsNext := \<not> xIsNext s\<rparr>"
  using handlePlay_ok [OF ok, of i] p ne by (auto split: if_splits)

lemma played_state_nav:
  assumes ok: "history_ok s" and p: "handlePlay_nav i s = Inr s'" and ne: "s' \<noteq> s"
  shows "idx (history s ! step s) i = None"
    and "winner (calculateWinner (history s ! step s)) = None"
    and "s' = s\<lparr>history := take (step s + 1) (history s) @
                  [assign (slice (history s ! step s)) i
                     (if even (step s) then MarkX else MarkO)],
                step := step s + 1\<rparr>"
  using handlePlay_nav_ok [OF ok, of i] p ne by (auto split: if_splits)

lemma replay_same_board:
  assumes pl: "placed m b1 b2" and i: "0 \<le> k" "k \<le> 8" and free: "idx b1 k = None"
  shows "assign (slice b1) k m = b2 \<longleftrightarrow> idx b2 k \<noteq> None"
proof -
  from placed_elems [OF pl] obtain k' where k': "k' < 9" "elems b1 ! k' = None"
    "elems b2 = (elems b1)[k' := Some m]" by blast
  from pl have len: "length (elems b1) = 9" "length (elems b2) = 9"
    and pr: "props b2 = Map.empty" by (simp_all add: placed_def board9_def)
  have ai: "array_index k" and lt: "nat k < 9" using i by (simp_all add: array_index_def)
  have b3: "assign (slice b1) k m = \<lparr>elems = (elems b1)[nat k := Some m], props = Map.empty\<rparr>"
    using ai lt len by (simp add: assign_def slice_def)
  have f1: "elems b1 ! nat k = None" using free ai lt len by (simp add: idx_def)
  have i2: "idx b2 k = elems b2 ! nat k" using ai lt len by (simp add: idx_def)
  show ?thesis
  proof
    assume "assign (slice b1) k m = b2"
    then have "elems b2 = (elems b1)[nat k := Some m]" using b3 by (metis squares.select_convs(1))
    then show "idx b2 k \<noteq> None" using i2 lt len by simp
  next
    assume "idx b2 k \<noteq> None"
    then have "(elems b1)[k' := Some m] ! nat k \<noteq> None" using i2 k'(3) by simp
    then have "nat k = k'" using f1 by (cases "nat k = k'") simp_all
    then have "elems b2 = (elems b1)[nat k := Some m]" using k'(3) by simp
    then show "assign (slice b1) k m = b2" using b3 pr by simp
  qed
qed

text \<open>
  C6 (as it holds). A play that is taken up in a reachable state keeps the snapshots
  up to and including the current one, appends the new board (the current board with
  the cell set to the mark whose turn it is) and moves \<open>step\<close> one up, onto that
  new last snapshot. In the form with the move list a redo is then turned down,
  since \<open>step\<close> is at the end, and undo followed by redo comes back to the new
  board. The new board is the snapshot that used to follow the current one exactly
  when the cell played is the one that snapshot had filled: from
  \<open>[B0, B1, B2]\<close> at \<open>step = 1\<close> a play gives \<open>[B0, B1, B3]\<close>, and \<open>B3\<close>
  differs from \<open>B2\<close> unless the play repeats the move that led to \<open>B2\<close>.
\<close>

theorem play_truncates_and_appends:
  "(reachable s \<and> 0 \<le> i \<and> i \<le> 8 \<and> handlePlay i s = Inr s' \<and> s' \<noteq> s \<longrightarrow>
      history s' =
        take (step s + 1) (history s) @
        [assign (slice (history s ! step s)) i (if even (step s) then MarkX else MarkO)] \<and>
      step s' = step s + 1) \<and>
   (reachable_nav t \<and> 0 \<le> k \<and> k \<le> 8 \<and> handlePlay_nav k t = Inr t' \<and> t' \<noteq> t \<longrightarrow>
      (let B3 = assign (slice (history t ! step t)) k (if even (step t) then MarkX else MarkO)
       in history t' = take (step t + 1) (history t) @ [B3] \<and>
          step t' = step t + 1 \<and>
          currentSquares t' = Some B3 \<and>
          handleRedo t' = Inr t' \<and>
          (\<exists>u. handleUndo_nav t' = Inr u \<and> u \<noteq> t' \<and> handleRedo u = Inr t') \<and>
          (Suc (step t) < length (history t) \<longrightarrow>
             (B3 = history t ! Suc (step t) \<longleftrightarrow> idx (history t ! Suc (step t)) k \<noteq> None))))"
proof (intro conjI impI; (elim conjE)?)
  assume r: "reachable s" and i: "0 \<le> i" "i \<le> 8"
    and p: "handlePlay i s = Inr s'" and ne: "s' \<noteq> s"
  from reachable_flag_ok [OF r] have ok: "history_ok s" and fl: "xIsNext s = even (step s)"
    by (simp_all add: flag_ok_def)
  from played_state(3) [OF ok p ne] fl
  show "history s' =
        take (step s + 1) (history s) @
        [assign (slice (history s ! step s)) i (if even (step s) then MarkX else MarkO)]"
    and "step s' = step s + 1" by simp_all
next
  assume r: "reachable_nav t" and k: "0 \<le> k" "k \<le> 8"
    and p: "handlePlay_nav k t = Inr t'" and ne: "t' \<noteq> t"
  let ?B3 = "assign (slice (history t ! step t)) k (if even (step t) then MarkX else MarkO)"
  from reachable_nav_history_ok [OF r] have ok: "history_ok t" .
  have lt: "step t < length (history t)" using ok by (simp add: history_ok_def)
  note pl = played_state_nav [OF ok p ne]
  have ok': "history_ok t'" using history_ok_play_nav [OF ok k p] .
  have h: "history t' = take (step t + 1) (history t) @ [?B3]" and st: "step t' = step t + 1"
    using pl(3) by simp_all
  have len: "length (history t') = step t + 2" using h lt by simp
  have cur: "currentSquares t' = Some ?B3"
    using currentSquares_ok [OF ok'] h st lt by (simp add: nth_append)
  have redo: "handleRedo t' = Inr t'" using handleRedo_ok [OF ok'] st len by simp
  have undo: "handleUndo_nav t' = Inr (t'\<lparr>step := step t\<rparr>)"
    using handleUndo_nav_ok [OF ok'] st by simp
  have oku: "history_ok (t'\<lparr>step := step t\<rparr>)"
    using ok' st by (simp add: history_ok_def)
  have again: "handleRedo (t'\<lparr>step := step t\<rparr>) = Inr t'"
    using handleRedo_ok [OF oku] len st by simp
  have neu: "t'\<lparr>step := step t\<rparr> \<noteq> t'"
  proof
    assume "t'\<lparr>step := step t\<rparr> = t'"
    then have "step (t'\<lparr>step := step t\<rparr>) = step t'" by simp
    then show False using st by simp
  qed
  have same: "?B3 = history t ! Suc (step t) \<longleftrightarrow> idx (history t ! Suc (step t)) k \<noteq> None"
    if "Suc (step t) < length (history t)"
  proof -
    from that ok
    have "placed (if even (step t) then MarkX else MarkO) (history t ! step t)
            (history t ! Suc (step t))"
      by (simp add: history_ok_def)
    from replay_same_board [OF this k pl(1)] show ?thesis .
  qed
  show "let B3 = ?B3
        in history t' = take (step t + 1) (history t) @ [B3] \<and>
          step t' = step t + 1 \<and>
          currentSquares t' = Some B3 \<and>
          handleRedo t' = Inr t' \<and>
          (\<exists>u. handleUndo_nav t' = Inr u \<and> u \<noteq> t' \<and> handleRedo u = Inr t') \<and>
          (Suc (step t) < length (history t) \<longrightarrow>
             (B3 = history t ! Suc (step t) \<longleftrightarrow> idx (history t ! Suc (step t)) k \<noteq> None))"
    unfolding Let_def using h st cur redo undo neu again same by blast
qed

theorem play_truncates_and_appends_witness:
  "(\<exists>s s'. clicks [0] initial = Inr s \<and> reachable s \<and> handlePlay 4 s = Inr s' \<and> s' \<noteq> s \<and>
      step s = 1 \<and> step s' = 2 \<and>
      history s' =
        [emptyBoard, grid [cx, ce, ce, ce, ce, ce, ce, ce, ce],
         grid [cx, ce, ce, ce, co, ce, ce, ce, ce]]) \<and>
   (\<exists>t u t'. clicks_nav [0, 1] initial_nav = Inr t \<and> handleUndo_nav t = Inr u \<and>
      reachable_nav u \<and> handlePlay_nav 4 u = Inr t' \<and> t' \<noteq> u \<and>
      history u =
        [emptyBoard, grid [cx, ce, ce, ce, ce, ce, ce, ce, ce],
         grid [cx, co, ce, ce, ce, ce, ce, ce, ce]] \<and>
      step u = 1 \<and>
      history t' =
        [emptyBoard, grid [cx, ce, ce, ce, ce, ce, ce, ce, ce],
         grid [cx, ce, ce, ce, co, ce, ce, ce, ce]] \<and>
      step t' = 2 \<and> handleRedo t' = Inr t' \<and>
      currentSquares t' = Some (grid [cx, ce, ce, ce, co, ce, ce, ce, ce]))"
proof -
  have "\<exists>s s'. clicks [0] initial = Inr s \<and> handlePlay 4 s = Inr s' \<and> step s = 1 \<and>
      step s' = 2 \<and>
      history s = [emptyBoard, grid [cx, ce, ce, ce, ce, ce, ce, ce, ce]]"
    by (simp add: run_app)
  then obtain s s' where s: "clicks [0] initial = Inr s" "handlePlay 4 s = Inr s'"
    "step s = 1" "step s' = 2"
    "history s = [emptyBoard, grid [cx, ce, ce, ce, ce, ce, ce, ce, ce]]"
    by blast
  have rs: "reachable s"
    by (rule reachable_clicks [OF reachable.start _ s(1)]) simp
  have ns: "s' \<noteq> s" using s(3,4) by auto
  have "\<exists>t u t'. clicks_nav [0, 1] initial_nav = Inr t \<and> handleUndo_nav t = Inr u \<and>
      handlePlay_nav 4 u = Inr t' \<and> step u = 1 \<and> step t' = 2 \<and>
      history u =
        [emptyBoard, grid [cx, ce, ce, ce, ce, ce, ce, ce, ce],
         grid [cx, co, ce, ce, ce, ce, ce, ce, ce]]"
    by (simp add: run_nav)
  then obtain t u t' where t: "clicks_nav [0, 1] initial_nav = Inr t"
    "handleUndo_nav t = Inr u" "handlePlay_nav 4 u = Inr t'" "step u = 1" "step t' = 2"
    "history u =
        [emptyBoard, grid [cx, ce, ce, ce, ce, ce, ce, ce, ce],
         grid [cx, co, ce, ce, ce, ce, ce, ce, ce]]"
    by blast
  have "reachable_nav t"
    by (rule reachable_nav_clicks [OF reachable_nav.start _ t(1)]) simp
  then have ru: "reachable_nav u" using t(2) by (rule reachable_nav.undo)
  have nt: "t' \<noteq> u" using t(4,5) by auto
  from play_truncates_and_appends [of s 4 s' u 4 t'] rs s(2) ns ru t(3) nt
  have a: "history s' =
        take (step s + 1) (history s) @
        [assign (slice (history s ! step s)) 4 (if even (step s) then MarkX else MarkO)]"
    and b: "history t' =
        take (step u + 1) (history u) @
        [assign (slice (history u ! step u)) 4 (if even (step u) then MarkX else MarkO)]"
    and c: "currentSquares t' =
        Some (assign (slice (history u ! step u)) 4 (if even (step u) then MarkX else MarkO))"
    and d: "handleRedo t' = Inr t'"
    by (simp_all add: Let_def)
  have a': "history s' =
        [emptyBoard, grid [cx, ce, ce, ce, ce, ce, ce, ce, ce],
         grid [cx, ce, ce, ce, co, ce, ce, ce, ce]]"
    using a s(3,5) by (simp add: assign_def slice_def array_index_def)
  have b': "history t' =
        [emptyBoard, grid [cx, ce, ce, ce, ce, ce, ce, ce, ce],
         grid [cx, ce, ce, ce, co, ce, ce, ce, ce]]"
    using b t(4,6) by (simp add: assign_def slice_def array_index_def)
  have c': "currentSquares t' = Some (grid [cx, ce, ce, ce, co, ce, ce, ce, ce])"
    using c t(4,6) by (simp add: assign_def slice_def array_index_def)
  show ?thesis using rs ru s t ns nt a' b' c' d by blast
qed

text \<open>
  Against C6 as stated: after the plays on cells 0 and 1 and one undo, the history
  is \<open>[B0, B1, B2]\<close> with \<open>step = 1\<close>; the play on cell 1 is taken up and the
  history it leaves ends with a board equal to \<open>B2\<close>.
\<close>

theorem replayed_move_counterexample:
  "reachable_nav
     \<lparr>history =
        [emptyBoard, grid [cx, ce, ce, ce, ce, ce, ce, ce, ce],
         grid [cx, co, ce, ce, ce, ce, ce, ce, ce]],
      step = 1\<rparr> \<and>
   handlePlay_nav 1
     \<lparr>history =
        [emptyBoard, grid [cx, ce, ce, ce, ce, ce, ce, ce, ce],
         grid [cx, co, ce, ce, ce, ce, ce, ce, ce]],
      step = 1\<rparr> =
   Inr \<lparr>history =
        [emptyBoard, grid [cx, ce, ce, ce, ce, ce, ce, ce, ce],
         grid [cx, co, ce, ce, ce, ce, ce, ce, ce]],
      step = 2\<rparr>"
proof -
  let ?u = "\<lparr>history =
        [emptyBoard, grid [cx, ce, ce, ce, ce, ce, ce, ce, ce],
         grid [cx, co, ce, ce, ce, ce, ce, ce, ce]],
      step = 1\<rparr>"
  let ?t = "\<lparr>history =
        [emptyBoard, grid [cx, ce, ce, ce, ce, ce, ce, ce, ce],
         grid [cx, co, ce, ce, ce, ce, ce, ce, ce]],
      step = 2\<rparr>"
  have t: "clicks_nav [0, 1] initial_nav = Inr ?t" by (simp add: run_nav)
  have "reachable_nav ?t"
    by (rule reachable_nav_clicks [OF reachable_nav.start _ t]) simp
  moreover have "handleUndo_nav ?t = Inr ?u" by (simp add: run_nav)
  ultimately have "reachable_nav ?u" by (rule reachable_nav.undo)
  moreover have "handlePlay_nav 1 ?u = Inr ?t" by (simp add: run_nav)
  ultimately show ?thesis by simp
qed

section \<open>Undo\<close>

text \<open>
  C7 (as it holds). After a play on one of the nine cells that is taken up in a
  reachable state, an undo right away is taken up and brings back the board, the
  status and the cursor from before the play, with one exception: in App.js, whose
  \<open>handleUndo\<close> also tests \<open>!winner\<close>, the undo is turned down and the state stays
  as it is when the play completed a line. In the form with the move list the undo
  is taken up always.
\<close>

theorem undo_after_play:
  "(reachable s \<and> 0 \<le> i \<and> i \<le> 8 \<and> handlePlay i s = Inr s' \<and> s' \<noteq> s \<and>
    currentSquares s' = Some new \<longrightarrow>
      (winner (calculateWinner new) = None \<longrightarrow>
         (\<exists>u. handleUndo s' = Inr u \<and> u \<noteq> s' \<and> step u = step s \<and>
              currentSquares u = currentSquares s \<and> currentStatus u = currentStatus s)) \<and>
      (winner (calculateWinner new) \<noteq> None \<longrightarrow> handleUndo s' = Inr s')) \<and>
   (reachable_nav t \<and> 0 \<le> j \<and> j \<le> 8 \<and> handlePlay_nav j t = Inr t' \<and> t' \<noteq> t \<longrightarrow>
      (\<exists>u. handleUndo_nav t' = Inr u \<and> u \<noteq> t' \<and> step u = step t \<and>
           currentSquares u = currentSquares t \<and> currentStatus_nav u = currentStatus_nav t))"
proof (intro conjI impI; (elim conjE)?)
  assume r: "reachable s" and i: "0 \<le> i" "i \<le> 8" and p: "handlePlay i s = Inr s'"
    and ne: "s' \<noteq> s" and c: "currentSquares s' = Some new"
  from reachable_flag_ok [OF r] have ok: "history_ok s" by (simp add: flag_ok_def)
  have lt: "step s < length (history s)" using ok by (simp add: history_ok_def)
  have "reachable s'" using r i p by (rule reachable.play)
  from reachable_flag_ok [OF this] have ok': "history_ok s'" by (simp add: flag_ok_def)
  note pl = played_state [OF ok p ne]
  have st: "step s' = step s + 1" and fl: "xIsNext s' = (\<not> xIsNext s)"
    and h: "history s' ! step s = history s ! step s"
    and len: "length (history s') = step s + 2"
    using pl(3) lt by (simp_all add: nth_append)
  have new: "new = history s' ! step s'" using currentSquares_ok [OF ok'] c by simp
  let ?u = "s'\<lparr>step := step s' - 1, xIsNext := \<not> xIsNext s'\<rparr>"
  {
    assume w: "winner (calculateWinner new) = None"
    have u: "handleUndo s' = Inr ?u" using handleUndo_ok [OF ok'] w new st by simp
    have "?u \<noteq> s'"
    proof
      assume "?u = s'"
      then have "step ?u = step s'" by simp
      then show False using st by simp
    qed
    moreover have "step ?u = step s" using st by simp
    moreover have "currentSquares ?u = currentSquares s"
      using st h len lt by (simp add: currentSquares_def)
    moreover from this have "currentStatus ?u = currentStatus s"
      using fl by (simp add: currentStatus_def split: option.splits)
    ultimately show "\<exists>u. handleUndo s' = Inr u \<and> u \<noteq> s' \<and> step u = step s \<and>
              currentSquares u = currentSquares s \<and> currentStatus u = currentStatus s"
      using u by blast
  }
  {
    assume "winner (calculateWinner new) \<noteq> None"
    then show "handleUndo s' = Inr s'" using handleUndo_ok [OF ok'] new by auto
  }
next
  assume r: "reachable_nav t" and j: "0 \<le> j" "j \<le> 8" and p: "handlePlay_nav j t = Inr t'"
    and ne: "t' \<noteq> t"
  from reachable_nav_history_ok [OF r] have ok: "history_ok t" .
  have lt: "step t < length (history t)" using ok by (simp add: history_ok_def)
  have ok': "history_ok t'" using history_ok_play_nav [OF ok j p] .
  note pl = played_state_nav [OF ok p ne]
  have st: "step t' = step t + 1"
    and h: "history t' ! step t = history t ! step t"
    and len: "length (history t') = step t + 2"
    using pl(3) lt by (simp_all add: nth_append)
  let ?u = "t'\<lparr>step := step t' - 1\<rparr>"
  have u: "handleUndo_nav t' = Inr ?u" using handleUndo_nav_ok [OF ok'] st by simp
  have "?u \<noteq> t'"
  proof
    assume "?u = t'"
    then have "step ?u = step t'" by simp
    then show False using st by simp
  qed
  moreover have su: "step ?u = step t" using st by simp
  moreover have "currentSquares ?u = currentSquares t"
    using st h len lt by (simp add: currentSquares_def)
  moreover from this su have "currentStatus_nav ?u = currentStatus_nav t"
    by (simp add: currentStatus_nav_def xIsNext_nav_def split: option.splits)
  ultimately show "\<exists>u. handleUndo_nav t' = Inr u \<and> u \<noteq> t' \<and> step u = step t \<and>
           currentSquares u = currentSquares t \<and> currentStatus_nav u = currentStatus_nav t"
    using u by blast
qed

theorem undo_after_play_witness:
  "(\<exists>s s' u. clicks [0, 3, 1] initial = Inr s \<and> reachable s \<and> handlePlay 4 s = Inr s' \<and>
      s' \<noteq> s \<and> winner (calculateWinner (grid [cx, cx, ce, co, co, ce, ce, ce, ce])) = None \<and>
      currentSquares s' = Some (grid [cx, cx, ce, co, co, ce, ce, ce, ce]) \<and>
      handleUndo s' = Inr u \<and> u \<noteq> s' \<and>
      currentSquares u = currentSquares s \<and> currentStatus u = currentStatus s) \<and>
   (\<exists>s s'. clicks [0, 3, 1, 4] initial = Inr s \<and> reachable s \<and> handlePlay 2 s = Inr s' \<and>
      s' \<noteq> s \<and> winner (calculateWinner (grid [cx, cx, cx, co, co, ce, ce, ce, ce])) = Some MarkX \<and>
      currentSquares s' = Some (grid [cx, cx, cx, co, co, ce, ce, ce, ce]) \<and>
      handleUndo s' = Inr s') \<and>
   (\<exists>t t' u. clicks_nav [0, 3, 1, 4] initial_nav = Inr t \<and> reachable_nav t \<and>
      handlePlay_nav 2 t = Inr t' \<and> t' \<noteq> t \<and>
      currentStatus_nav t' = Inr (Won MarkX [0, 1, 2]) \<and>
      handleUndo_nav t' = Inr u \<and> u \<noteq> t' \<and>
      currentSquares u = currentSquares t \<and> currentStatus_nav u = currentStatus_nav t)"
proof -
  have "\<exists>s s'. clicks [0, 3, 1] initial = Inr s \<and> handlePlay 4 s = Inr s' \<and>
      step s = 3 \<and> step s' = 4 \<and>
      currentSquares s' = Some (grid [cx, cx, ce, co, co, ce, ce, ce, ce])"
    by (simp add: run_app)
  then obtain s s' where s: "clicks [0, 3, 1] initial = Inr s" "handlePlay 4 s = Inr s'"
    "step s = 3" "step s' = 4"
    "currentSquares s' = Some (grid [cx, cx, ce, co, co, ce, ce, ce, ce])"
    by blast
  have rs: "reachable s"
    by (rule reachable_clicks [OF reachable.start _ s(1)]) simp
  have ns: "s' \<noteq> s" using s(3,4) by auto
  have w1: "winner (calculateWinner (grid [cx, cx, ce, co, co, ce, ce, ce, ce])) = None"
    by (simp add: run_app)
  have "\<exists>r r'. clicks [0, 3, 1, 4] initial = Inr r \<and> handlePlay 2 r = Inr r' \<and>
      step r = 4 \<and> step r' = 5 \<and>
      currentSquares r' = Some (grid [cx, cx, cx, co, co, ce, ce, ce, ce])"
    by (simp add: run_app)
  then obtain r r' where r: "clicks [0, 3, 1, 4] initial = Inr r" "handlePlay 2 r = Inr r'"
    "step r = 4" "step r' = 5"
    "currentSquares r' = Some (grid [cx, cx, cx, co, co, ce, ce, ce, ce])"
    by blast
  have rr: "reachable r"
    by (rule reachable_clicks [OF reachable.start _ r(1)]) simp
  have nr: "r' \<noteq> r" using r(3,4) by auto
  have w2: "winner (calculateWinner (grid [cx, cx, cx, co, co, ce, ce, ce, ce])) = Some MarkX"
    by (simp add: run_app)
  have "\<exists>t t'. clicks_nav [0, 3, 1, 4] initial_nav = Inr t \<and> handlePlay_nav 2 t = Inr t' \<and>
      step t = 4 \<and> step t' = 5 \<and> currentStatus_nav t' = Inr (Won MarkX [0, 1, 2])"
    by (simp add: run_nav)
  then obtain t t' where t: "clicks_nav [0, 3, 1, 4] initial_nav = Inr t"
    "handlePlay_nav 2 t = Inr t'" "step t = 4" "step t' = 5"
    "currentStatus_nav t' = Inr (Won MarkX [0, 1, 2])"
    by blast
  have rt: "reachable_nav t"
    by (rule reachable_nav_clicks [OF reachable_nav.start _ t(1)]) simp
  have nt: "t' \<noteq> t" using t(3,4) by auto
  from undo_after_play [of s 4 s' "grid [cx, cx, ce, co, co, ce, ce, ce, ce]" t 2 t']
    rs s(2,5) ns w1 rt t(2) nt
  obtain u v where u: "handleUndo s' = Inr u" "u \<noteq> s'"
      "currentSquares u = currentSquares s" "currentStatus u = currentStatus s"
    and v: "handleUndo_nav t' = Inr v" "v \<noteq> t'"
      "currentSquares v = currentSquares t" "currentStatus_nav v = currentStatus_nav t"
    by auto
  from undo_after_play [of r 2 r' "grid [cx, cx, cx, co, co, ce, ce, ce, ce]" t 2 t']
    rr r(2,5) nr w2
  have k: "handleUndo r' = Inr r'" by simp
  show ?thesis
    using rs s ns w1 u rr r nr w2 k rt t nt v by blast
qed

text \<open>
  Against C7 as stated: in App.js, after X on 0 and 1 and O on 3 and 4, the play on
  cell 2 is taken up and wins the top row; the undo that follows changes nothing,
  and the board on display is not the one from before the play.
\<close>

theorem undo_after_winning_play_counterexample:
  "reachable \<lparr>history = top_row_game, step = 4, xIsNext = True\<rparr> \<and>
   handlePlay 2 \<lparr>history = top_row_game, step = 4, xIsNext = True\<rparr> =
     Inr \<lparr>history = top_row_game @ [grid [cx, cx, cx, co, co, ce, ce, ce, ce]],
          step = 5, xIsNext = False\<rparr> \<and>
   handleUndo \<lparr>history = top_row_game @ [grid [cx, cx, cx, co, co, ce, ce, ce, ce]],
               step = 5, xIsNext = False\<rparr> =
     Inr \<lparr>history = top_row_game @ [grid [cx, cx, cx, co, co, ce, ce, ce, ce]],
          step = 5, xIsNext = False\<rparr> \<and>
   currentSquares \<lparr>history = top_row_game @ [grid [cx, cx, cx, co, co, ce, ce, ce, ce]],
                   step = 5, xIsNext = False\<rparr> =
     Some (grid [cx, cx, cx, co, co, ce, ce, ce, ce]) \<and>
   currentSquares \<lparr>history = top_row_game, step = 4, xIsNext = True\<rparr> =
     Some (grid [cx, cx, ce, co, co, ce, ce, ce, ce])"
proof -
  have c: "clicks [0, 3, 1, 4] initial = Inr \<lparr>history = top_row_game, step = 4, xIsNext = True\<rparr>"
    by (simp add: run_app)
  have "reachable \<lparr>history = top_row_game, step = 4, xIsNext = True\<rparr>"
    by (rule reachable_clicks [OF reachable.start _ c]) simp
  then show ?thesis by (simp add: run_app)
qed

text \<open>
  C8 (as it holds). In a reachable state of App.js, undo is turned down exactly when
  \<open>step\<close> is 0 or the current board has a winner; otherwise it lowers \<open>step\<close> by
  one and leaves \<open>history\<close> as it is. In the form with the move list, undo is
  turned down exactly when \<open>step\<close> is 0, whatever the status, and otherwise lowers
  \<open>step\<close> by one and leaves \<open>history\<close> as it is.
\<close>

theorem undo_rejected_iff:
  "(reachable s \<and> currentSquares s = Some cur \<longrightarrow>
      (handleUndo s = Inr s \<longleftrightarrow> step s = 0 \<or> winner (calculateWinner cur) \<noteq> None) \<and>
      (step s \<noteq> 0 \<and> winner (calculateWinner cur) = None \<longrightarrow>
         (\<exists>u. handleUndo s = Inr u \<and> step u = step s - 1 \<and> history u = history s))) \<and>
   (reachable_nav t \<longrightarrow>
      (handleUndo_nav t = Inr t \<longleftrightarrow> step t = 0) \<and>
      (step t \<noteq> 0 \<longrightarrow>
         (\<exists>u. handleUndo_nav t = Inr u \<and> step u = step t - 1 \<and> history u = history t)))"
proof (intro conjI impI; (elim conjE)?)
  assume r: "reachable s" and c: "currentSquares s = Some cur"
  from reachable_flag_ok [OF r] have ok: "history_ok s" by (simp add: flag_ok_def)
  have cur: "cur = history s ! step s" using current_of_ok(1) [OF ok c] .
  let ?u = "s\<lparr>step := step s - 1, xIsNext := \<not> xIsNext s\<rparr>"
  have ne: "?u \<noteq> s" if "step s \<noteq> 0"
  proof
    assume "?u = s"
    then have "step ?u = step s" by simp
    then show False using that by simp
  qed
  show "handleUndo s = Inr s \<longleftrightarrow> step s = 0 \<or> winner (calculateWinner cur) \<noteq> None"
    using handleUndo_ok [OF ok] cur ne by auto
  assume "step s \<noteq> 0" and "winner (calculateWinner cur) = None"
  then have "handleUndo s = Inr ?u" using handleUndo_ok [OF ok] cur by simp
  then show "\<exists>u. handleUndo s = Inr u \<and> step u = step s - 1 \<and> history u = history s"
    by simp
next
  assume r: "reachable_nav t"
  from reachable_nav_history_ok [OF r] have ok: "history_ok t" .
  let ?u = "t\<lparr>step := step t - 1\<rparr>"
  have ne: "?u \<noteq> t" if "step t \<noteq> 0"
  proof
    assume "?u = t"
    then have "step ?u = step t" by simp
    then show False using that by simp
  qed
  show "handleUndo_nav t = Inr t \<longleftrightarrow> step t = 0"
    using handleUndo_nav_ok [OF ok] ne by auto
  assume "step t \<noteq> 0"
  then have "handleUndo_nav t = Inr ?u" using handleUndo_nav_ok [OF ok] by simp
  then show "\<exists>u. handleUndo_nav t = Inr u \<and> step u = step t - 1 \<and> history u = history t"
    by simp
qed

theorem undo_rejected_iff_witness:
  "(\<exists>s u. clicks [4, 0, 2, 1] initial = Inr s \<and> reachable s \<and> step s = 4 \<and>
      currentSquares s = Some (grid [co, co, cx, ce, cx, ce, ce, ce, ce]) \<and>
      winner (calculateWinner (grid [co, co, cx, ce, cx, ce, ce, ce, ce])) = None \<and>
      handleUndo s \<noteq> Inr s \<and> handleUndo s = Inr u \<and> step u = 3 \<and> history u = history s) \<and>
   (\<exists>t u. clicks_nav [4, 0, 2, 1, 6] initial_nav = Inr t \<and> reachable_nav t \<and> step t = 5 \<and>
      currentStatus_nav t = Inr (Won MarkX [2, 4, 6]) \<and>
      handleUndo_nav t \<noteq> Inr t \<and> handleUndo_nav t = Inr u \<and> step u = 4 \<and>
      history u = history t) \<and>
   handleUndo initial = Inr initial \<and> handleUndo_nav initial_nav = Inr initial_nav"
proof -
  have "\<exists>s. clicks [4, 0, 2, 1] initial = Inr s \<and> step s = 4 \<and>
      currentSquares s = Some (grid [co, co, cx, ce, cx, ce, ce, ce, ce])"
    by (simp add: run_app)
  then obtain s where s: "clicks [4, 0, 2, 1] initial = Inr s" "step s = 4"
    "currentSquares s = Some (grid [co, co, cx, ce, cx, ce, ce, ce, ce])"
    by blast
  have rs: "reachable s"
    by (rule reachable_clicks [OF reachable.start _ s(1)]) simp
  have w: "winner (calculateWinner (grid [co, co, cx, ce, cx, ce, ce, ce, ce])) = None"
    by (simp add: run_app)
  have "\<exists>t. clicks_nav [4, 0, 2, 1, 6] initial_nav = Inr t \<and> step t = 5 \<and>
      currentStatus_nav t = Inr (Won MarkX [2, 4, 6])"
    by (simp add: run_nav)
  then obtain t where t: "clicks_nav [4, 0, 2, 1, 6] initial_nav = Inr t" "step t = 5"
    "currentStatus_nav t = Inr (Won MarkX [2, 4, 6])"
    by blast
  have rt: "reachable_nav t"
    by (rule reachable_nav_clicks [OF reachable_nav.start _ t(1)]) simp
  from undo_rejected_iff [of s "grid [co, co, cx, ce, cx, ce, ce, ce, ce]" t] rs s(2,3) w rt t(2)
  obtain u v where u: "handleUndo s \<noteq> Inr s" "handleUndo s = Inr u" "step u = 3"
      "history u = history s"
    and v: "handleUndo_nav t \<noteq> Inr t" "handleUndo_nav t = Inr v" "step v = 4"
      "history v = history t"
    by auto
  have c0: "currentSquares initial = Some emptyBoard"
    by (simp add: currentSquares_def initial_def)
  have s0: "step initial = 0" "step initial_nav = 0"
    by (simp_all add: initial_def initial_nav_def)
  from undo_rejected_iff [of initial emptyBoard initial_nav] c0 s0
    reachable.start reachable_nav.start
  have z: "handleUndo initial = Inr initial" "handleUndo_nav initial_nav = Inr initial_nav"
    by simp_all
  show ?thesis using rs s w u rt t v z by blast
qed

text \<open>
  Against C8 as stated: in App.js, after X on 4, 2 and 6 and O on 0 and 1 the state is
  reachable, X has won on the line 2, 4, 6, \<open>step\<close> is 5, and an undo changes nothing.
\<close>

theorem undo_on_won_board_counterexample:
  "reachable \<lparr>history = diagonal_game, step = 5, xIsNext = False\<rparr> \<and>
   currentStatus \<lparr>history = diagonal_game, step = 5, xIsNext = False\<rparr> =
     Inr (Won MarkX [2, 4, 6]) \<and>
   step \<lparr>history = diagonal_game, step = 5, xIsNext = False\<rparr> = 5 \<and>
   handleUndo \<lparr>history = diagonal_game, step = 5, xIsNext = False\<rparr> =
     Inr \<lparr>history = diagonal_game, step = 5, xIsNext = False\<rparr>"
proof -
  have c: "clicks [4, 0, 2, 1, 6] initial =
             Inr \<lparr>history = diagonal_game, step = 5, xIsNext = False\<rparr>"
    by (simp add: run_app)
  have "reachable \<lparr>history = diagonal_game, step = 5, xIsNext = False\<rparr>"
    by (rule reachable_clicks [OF reachable.start _ c]) simp
  then show ?thesis by (simp add: run_app)
qed

section \<open>Two games of five moves\<close>

text \<open>
  C9 (as it holds). From the initial state the plays on cells 0, 4, 1, 3, 8 are all
  taken up (\<open>step\<close> is 5 afterwards) and leave X on 0, 1, 8 and O on 4, 3: no line
  is complete, the status is \<open>InProgress\<close> with O to move, and a play on the empty
  cell 2 is taken up. With the second and third play exchanged, the plays on
  0, 1, 4, 3, 8 are all taken up and leave X on 0, 4, 8: the status is \<open>Won\<close> for X
  with the line 0, 4, 8, and every further play, whatever its index, is turned down.
  Both forms of the component behave so.
\<close>

theorem five_move_scenarios:
  "(\<exists>s. clicks [0, 4, 1, 3, 8] initial = Inr s \<and> step s = 5 \<and>
      currentSquares s = Some (grid [cx, cx, ce, co, co, ce, ce, ce, cx]) \<and>
      currentStatus s = Inr (InProgress MarkO) \<and> handlePlay 2 s \<noteq> Inr s) \<and>
   (\<exists>s. clicks [0, 1, 4, 3, 8] initial = Inr s \<and> step s = 5 \<and>
      currentSquares s = Some (grid [cx, co, ce, co, cx, ce, ce, ce, cx]) \<and>
      currentStatus s = Inr (Won MarkX [0, 4, 8]) \<and> (\<forall>i. handlePlay i s = Inr s)) \<and>
   (\<exists>t. clicks_nav [0, 4, 1, 3, 8] initial_nav = Inr t \<and> step t = 5 \<and>
      currentSquares t = Some (grid [cx, cx, ce, co, co, ce, ce, ce, cx]) \<and>
      currentStatus_nav t = Inr (InProgress MarkO) \<and> handlePlay_nav 2 t \<noteq> Inr t) \<and>
   (\<exists>t. clicks_nav [0, 1, 4, 3, 8] initial_nav = Inr t \<and> step t = 5 \<and>
      currentSquares t = Some (grid [cx, co, ce, co, cx, ce, ce, ce, cx]) \<and>
      currentStatus_nav t = Inr (Won MarkX [0, 4, 8]) \<and> (\<forall>i. handlePlay_nav i t = Inr t))"
proof (intro conjI)
  show "\<exists>s. clicks [0, 4, 1, 3, 8] initial = Inr s \<and> step s = 5 \<and>
      currentSquares s = Some (grid [cx, cx, ce, co, co, ce, ce, ce, cx]) \<and>
      currentStatus s = Inr (InProgress MarkO) \<and> handlePlay 2 s \<noteq> Inr s"
    by (simp add: run_app)
  show "\<exists>s. clicks [0, 1, 4, 3, 8] initial = Inr s \<and> step s = 5 \<and>
      currentSquares s = Some (grid [cx, co, ce, co, cx, ce, ce, ce, cx]) \<and>
      currentStatus s = Inr (Won MarkX [0, 4, 8]) \<and> (\<forall>i. handlePlay i s = Inr s)"
    by (simp add: run_app)
  show "\<exists>t. clicks_nav [0, 4, 1, 3, 8] initial_nav = Inr t \<and> step t = 5 \<and>
      currentSquares t = Some (grid [cx, cx, ce, co, co, ce, ce, ce, cx]) \<and>
      currentStatus_nav t = Inr (InProgress MarkO) \<and> handlePlay_nav 2 t \<noteq> Inr t"
    by (simp add: run_nav)
  show "\<exists>t. clicks_nav [0, 1, 4, 3, 8] initial_nav = Inr t \<and> step t = 5 \<and>
      currentSquares t = Some (grid [cx, co, ce, co, cx, ce, ce, ce, cx]) \<and>
      currentStatus_nav t = Inr (Won MarkX [0, 4, 8]) \<and> (\<forall>i. handlePlay_nav i t = Inr t)"
    by (simp add: run_nav)
qed

theorem five_move_scenarios_witness:
  "(\<exists>s. clicks [0, 1, 4, 3, 8] initial = Inr s \<and> reachable s \<and> step s = 5 \<and>
      currentStatus s = Inr (Won MarkX [0, 4, 8]) \<and>
      handlePlay 0 s = Inr s \<and> handlePlay 2 s = Inr s \<and> handlePlay 7 s = Inr s \<and>
      handlePlay 9 s = Inr s) \<and>
   (\<exists>t. clicks_nav [0, 1, 4, 3, 8] initial_nav = Inr t \<and> reachable_nav t \<and> step t = 5 \<and>
      currentStatus_nav t = Inr (Won MarkX [0, 4, 8]) \<and>
      handlePlay_nav 0 t = Inr t \<and> handlePlay_nav 2 t = Inr t \<and> handlePlay_nav 7 t = Inr t \<and>
      handlePlay_nav 9 t = Inr t)"
proof -
  from five_move_scenarios
  obtain s t where s: "clicks [0, 1, 4, 3, 8] initial = Inr s" "step s = 5"
      "currentStatus s = Inr (Won MarkX [0, 4, 8])" "\<And>i. handlePlay i s = Inr s"
    and t: "clicks_nav [0, 1, 4, 3, 8] initial_nav = Inr t" "step t = 5"
      "currentStatus_nav t = Inr (Won MarkX [0, 4, 8])" "\<And>i. handlePlay_nav i t = Inr t"
    by blast
  have "reachable s"
    by (rule reachable_clicks [OF reachable.start _ s(1)]) simp
  moreover have "reachable_nav t"
    by (rule reachable_nav_clicks [OF reachable_nav.start _ t(1)]) simp
  ultimately show ?thesis using s t by blast
qed

text \<open>
  Against C9 as stated: the plays on 0, 4, 1, 3, 8 put O, not X, on the centre cell 4;
  no line is complete, the status is \<open>InProgress\<close> with O to move and not \<open>Won\<close>,
  and the play on cell 2 that follows is taken up.
\<close>

theorem centre_taken_by_O_counterexample:
  "clicks [0, 4, 1, 3, 8] initial = Inr \<lparr>history = centre_game, step = 5, xIsNext = False\<rparr> \<and>
   currentStatus \<lparr>history = centre_game, step = 5, xIsNext = False\<rparr> = Inr (InProgress MarkO) \<and>
   idx (grid [cx, cx, ce, co, co, ce, ce, ce, cx]) 4 = Some MarkO \<and>
   winner (calculateWinner (grid [cx, cx, ce, co, co, ce, ce, ce, cx])) = None \<and>
   handlePlay 2 \<lparr>history = centre_game, step = 5, xIsNext = False\<rparr> =
     Inr \<lparr>history = centre_game @ [grid [cx, cx, co, co, co, ce, ce, ce, cx]],
          step = 6, xIsNext = True\<rparr>"
  by (simp add: run_app)

section \<open>A play with an index outside the board\<close>

lemma out_of_range_free:
  assumes "board9 cur" "i < 0 \<or> 8 < i"
  shows "idx cur i = None"
  using assms by (auto simp: idx_def board9_def array_index_def)

lemma assign_past_end:
  assumes b: "board9 cur" and i: "9 \<le> i" "i \<le> 4294967294"
  shows "length (elems (assign (slice cur) i m)) = nat i + 1"
    and "idx (assign (slice cur) i m) i = Some m"
proof -
  have ai: "array_index i" using i by (simp add: array_index_def)
  have len: "length (elems cur) = 9" using b by (simp add: board9_def)
  have ge: "\<not> nat i < 9" using i by simp
  have eq: "assign (slice cur) i m =
              \<lparr>elems = elems cur @ replicate (nat i - 9) None @ [Some m], props = Map.empty\<rparr>"
    using ai ge len by (simp add: assign_def slice_def)
  show "length (elems (assign (slice cur) i m)) = nat i + 1"
    unfolding eq using len ge by simp
  have "(elems cur @ replicate (nat i - 9) None @ [Some m]) ! nat i = Some m"
    using len ge by (simp add: nth_append)
  then show "idx (assign (slice cur) i m) i = Some m"
    unfolding eq using ai len ge by (simp add: idx_def)
qed

lemma assign_not_index:
  assumes "i < 0 \<or> 4294967294 < i"
  shows "assign (slice cur) i m = \<lparr>elems = elems cur, props = Map.empty(i \<mapsto> m)\<rparr>"
    and "idx (assign (slice cur) i m) i = Some m"
proof -
  have ai: "\<not> array_index i" using assms by (auto simp: array_index_def)
  show eq: "assign (slice cur) i m = \<lparr>elems = elems cur, props = Map.empty(i \<mapsto> m)\<rparr>"
    using ai by (simp add: assign_def slice_def)
  show "idx (assign (slice cur) i m) i = Some m"
    unfolding eq using ai by (simp add: idx_def)
qed

lemma out_of_range_board:
  assumes b: "board9 cur" and i: "i < 0 \<or> 8 < i"
  shows "idx (assign (slice cur) i m) i = Some m"
    and "\<not> board9 (assign (slice cur) i m)"
proof -
  consider "9 \<le> i" "i \<le> 4294967294" | "i < 0 \<or> 4294967294 < i" using i by linarith
  then show "idx (assign (slice cur) i m) i = Some m"
    using assign_past_end(2) [OF b] assign_not_index(2) by cases blast+
  consider "9 \<le> i" "i \<le> 4294967294" | "i < 0 \<or> 4294967294 < i" using i by linarith
  then show "\<not> board9 (assign (slice cur) i m)"
  proof cases
    case 1
    then have "nat i \<noteq> 8" by simp
    then show ?thesis using assign_past_end(1) [OF b 1, of m] by (simp add: board9_def)
  next
    case 2
    have "(Map.empty(i \<mapsto> m)) \<noteq> Map.empty" by simp
    then show ?thesis using assign_not_index(1) [OF 2, of cur m] by (simp add: board9_def)
  qed
qed

lemma pushed_bad_board:
  assumes lt: "step s < length (history s)"
    and h: "history s' = take (step s + 1) (history s) @ [b]" and nb: "\<not> board9 b"
  shows "\<not> history_ok s'"
proof
  assume ok: "history_ok s'"
  have "Suc (step s) < length (history s')" using h lt by simp
  from history_ok_snapshot [OF ok this] have "board9 (history s' ! Suc (step s))" by simp
  moreover have "history s' ! Suc (step s) = b" using h lt by (simp add: nth_append)
  ultimately show False using nb by simp
qed

text \<open>
  C10 (as it holds). \<open>handlePlay\<close> checks no range. In a state reached by plays on
  the nine cells whose current board has no winner, a play with an integer index
  below 0 or above 8 is taken up: the history is cut after the current snapshot, a
  new snapshot is appended, \<open>step\<close> goes one up, and reading the new snapshot at
  that index gives the mark whose turn it was. For an index from 9 up to the largest
  array index 4294967294 the new snapshot has index + 1 cells, more than nine; for a
  negative index, and for one above 4294967294, the mark is kept as a property
  beside the nine cells, whose number stays nine. Either way the new snapshot is
  not a board of the game and the invariant of the history is lost.
\<close>

theorem play_outside_the_board:
  "(reachable s \<and> (i < 0 \<or> 8 < i) \<and> currentSquares s = Some cur \<and>
    winner (calculateWinner cur) = None \<longrightarrow>
      (let next = assign (slice cur) i (if even (movesPlayed cur) then MarkX else MarkO)
       in (\<exists>s'. handlePlay i s = Inr s' \<and> s' \<noteq> s \<and>
                history s' = take (step s + 1) (history s) @ [next] \<and>
                step s' = step s + 1 \<and> \<not> history_ok s') \<and>
          idx next i = Some (if even (movesPlayed cur) then MarkX else MarkO) \<and>
          (9 \<le> i \<and> i \<le> 4294967294 \<longrightarrow> length (elems next) = nat i + 1) \<and>
          (i < 0 \<or> 4294967294 < i \<longrightarrow> length (elems next) = 9) \<and>
          \<not> board9 next)) \<and>
   (reachable_nav t \<and> (j < 0 \<or> 8 < j) \<and> currentSquares t = Some cur' \<and>
    winner (calculateWinner cur') = None \<longrightarrow>
      (let next = assign (slice cur') j (if even (movesPlayed cur') then MarkX else MarkO)
       in (\<exists>t'. handlePlay_nav j t = Inr t' \<and> t' \<noteq> t \<and>
                history t' = take (step t + 1) (history t) @ [next] \<and>
                step t' = step t + 1 \<and> \<not> history_ok t') \<and>
          idx next j = Some (if even (movesPlayed cur') then MarkX else MarkO) \<and>
          (9 \<le> j \<and> j \<le> 4294967294 \<longrightarrow> length (elems next) = nat j + 1) \<and>
          (j < 0 \<or> 4294967294 < j \<longrightarrow> length (elems next) = 9) \<and>
          \<not> board9 next))"
proof (intro conjI impI; (elim conjE)?)
  assume r: "reachable s" and i: "i < 0 \<or> 8 < i" and c: "currentSquares s = Some cur"
    and w: "winner (calculateWinner cur) = None"
  let ?m = "if even (movesPlayed cur) then MarkX else MarkO"
  let ?next = "assign (slice cur) i ?m"
  from reachable_flag_ok [OF r] have ok: "history_ok s" and fl: "xIsNext s = even (step s)"
    by (simp_all add: flag_ok_def)
  note cur = current_of_ok [OF ok c]
  have lt: "step s < length (history s)" using ok by (simp add: history_ok_def)
  let ?s' = "s\<lparr>history := take (step s + 1) (history s) @ [?next],
               step := step s + 1, xIsNext := \<not> xIsNext s\<rparr>"
  have free: "idx cur i = None" using out_of_range_free [OF cur(2) i] .
  have p: "handlePlay i s = Inr ?s'"
    using handlePlay_ok [OF ok, of i] free w fl cur(1,3) by simp
  have ne: "?s' \<noteq> s"
  proof
    assume "?s' = s"
    then have "step ?s' = step s" by simp
    then show False by simp
  qed
  have nb: "\<not> board9 ?next" using out_of_range_board(2) [OF cur(2) i] .
  have bad: "\<not> history_ok ?s'"
    by (rule pushed_bad_board [OF lt _ nb]) simp
  have "\<exists>s'. handlePlay i s = Inr s' \<and> s' \<noteq> s \<and>
          history s' = take (step s + 1) (history s) @ [?next] \<and>
          step s' = step s + 1 \<and> \<not> history_ok s'"
    using p ne bad by (intro exI [of _ ?s']) simp
  moreover have "idx ?next i = Some ?m" using out_of_range_board(1) [OF cur(2) i] .
  moreover have "9 \<le> i \<and> i \<le> 4294967294 \<longrightarrow> length (elems ?next) = nat i + 1"
    using assign_past_end(1) [OF cur(2)] by blast
  moreover have "i < 0 \<or> 4294967294 < i \<longrightarrow> length (elems ?next) = 9"
    using assign_not_index(1) [of i cur ?m] cur(2) by (auto simp: board9_def)
  ultimately show "let next = ?next
       in (\<exists>s'. handlePlay i s = Inr s' \<and> s' \<noteq> s \<and>
                history s' = take (step s + 1) (history s) @ [next] \<and>
                step s' = step s + 1 \<and> \<not> history_ok s') \<and>
          idx next i = Some ?m \<and>
          (9 \<le> i \<and> i \<le> 4294967294 \<longrightarrow> length (elems next) = nat i + 1) \<and>
          (i < 0 \<or> 4294967294 < i \<longrightarrow> length (elems next) = 9) \<and>
          \<not> board9 next"
    unfolding Let_def using nb by blast
next
  assume r: "reachable_nav t" and i: "j < 0 \<or> 8 < j" and c: "currentSquares t = Some cur'"
    and w: "winner (calculateWinner cur') = None"
  let ?m = "if even (movesPlayed cur') then MarkX else MarkO"
  let ?next = "assign (slice cur') j ?m"
  from reachable_nav_history_ok [OF r] have ok: "history_ok t" .
  note cur = current_of_ok [OF ok c]
  have lt: "step t < length (history t)" using ok by (simp add: history_ok_def)
  let ?t' = "t\<lparr>history := take (step t + 1) (history t) @ [?next], step := step t + 1\<rparr>"
  have free: "idx cur' j = None" using out_of_range_free [OF cur(2) i] .
  have p: "handlePlay_nav j t = Inr ?t'"
    using handlePlay_nav_ok [OF ok, of j] free w cur(1,3) by simp
  have ne: "?t' \<noteq> t"
  proof
    assume "?t' = t"
    then have "step ?t' = step t" by simp
    then show False by simp
  qed
  have nb: "\<not> board9 ?next" using out_of_range_board(2) [OF cur(2) i] .
  have bad: "\<not> history_ok ?t'"
    by (rule pushed_bad_board [OF lt _ nb]) simp
  have "\<exists>t'. handlePlay_nav j t = Inr t' \<and> t' \<noteq> t \<and>
          history t' = take (step t + 1) (history t) @ [?next] \<and>
          step t' = step t + 1 \<and> \<not> history_ok t'"
    using p ne bad by (intro exI [of _ ?t']) simp
  moreover have "idx ?next j = Some ?m" using out_of_range_board(1) [OF cur(2) i] .
  moreover have "9 \<le> j \<and> j \<le> 4294967294 \<longrightarrow> length (elems ?next) = nat j + 1"
    using assign_past_end(1) [OF cur(2)] by blast
  moreover have "j < 0 \<or> 4294967294 < j \<longrightarrow> length (elems ?next) = 9"
    using assign_not_index(1) [of j cur' ?m] cur(2) by (auto simp: board9_def)
  ultimately show "let next = ?next
       in (\<exists>t'. handlePlay_nav j t = Inr t' \<and> t' \<noteq> t \<and>
                history t' = take (step t + 1) (history t) @ [next] \<and>
                step t' = step t + 1 \<and> \<not> history_ok t') \<and>
          idx next j = Some ?m \<and>
          (9 \<le> j \<and> j \<le> 4294967294 \<longrightarrow> length (elems next) = nat j + 1) \<and>
          (j < 0 \<or> 4294967294 < j \<longrightarrow> length (elems next) = 9) \<and>
          \<not> board9 next"
    unfolding Let_def using nb by blast
qed

theorem play_outside_the_board_witness:
  "(\<exists>s s'. clicks [0] initial = Inr s \<and> reachable s \<and>
      currentSquares s = Some (grid [cx, ce, ce, ce, ce, ce, ce, ce, ce]) \<and>
      winner (calculateWinner (grid [cx, ce, ce, ce, ce, ce, ce, ce, ce])) = None \<and>
      handlePlay 9 s = Inr s' \<and> s' \<noteq> s \<and> step s' = 2 \<and>
      currentSquares s' = Some (grid [cx, ce, ce, ce, ce, ce, ce, ce, ce, co]) \<and>
      \<not> history_ok s') \<and>
   (\<exists>t'. reachable_nav initial_nav \<and> currentSquares initial_nav = Some emptyBoard \<and>
      winner (calculateWinner emptyBoard) = None \<and>
      handlePlay_nav (- 1) initial_nav = Inr t' \<and> t' \<noteq> initial_nav \<and> step t' = 1 \<and>
      currentSquares t' =
        Some \<lparr>elems = [ce, ce, ce, ce, ce, ce, ce, ce, ce], props = Map.empty(- 1 \<mapsto> MarkX)\<rparr> \<and>
      \<not> history_ok t')"
proof -
  let ?b = "grid [cx, ce, ce, ce, ce, ce, ce, ce, ce]"
  have "\<exists>s s'. clicks [0] initial = Inr s \<and> currentSquares s = Some ?b \<and>
      handlePlay 9 s = Inr s' \<and> step s' = 2 \<and>
      currentSquares s' = Some (grid [cx, ce, ce, ce, ce, ce, ce, ce, ce, co])"
    by (simp add: run_app)
  then obtain s s1 where s: "clicks [0] initial = Inr s" "currentSquares s = Some ?b"
    "handlePlay 9 s = Inr s1" "step s1 = 2"
    "currentSquares s1 = Some (grid [cx, ce, ce, ce, ce, ce, ce, ce, ce, co])"
    by blast
  have rs: "reachable s"
    by (rule reachable_clicks [OF reachable.start _ s(1)]) simp
  have w: "winner (calculateWinner ?b) = None" by (simp add: run_app)
  have "\<exists>t'. handlePlay_nav (- 1) initial_nav = Inr t' \<and> step t' = 1 \<and>
      currentSquares t' =
        Some \<lparr>elems = [ce, ce, ce, ce, ce, ce, ce, ce, ce], props = Map.empty(- 1 \<mapsto> MarkX)\<rparr>"
    by (simp add: run_nav)
  then obtain t1 where t: "handlePlay_nav (- 1) initial_nav = Inr t1" "step t1 = 1"
    "currentSquares t1 =
        Some \<lparr>elems = [ce, ce, ce, ce, ce, ce, ce, ce, ce], props = Map.empty(- 1 \<mapsto> MarkX)\<rparr>"
    by blast
  have c0: "currentSquares initial_nav = Some emptyBoard"
    by (simp add: currentSquares_def initial_nav_def)
  have w0: "winner (calculateWinner emptyBoard) = None" by (simp add: run_app)
  from play_outside_the_board [of s 9 ?b initial_nav "- 1" emptyBoard]
    rs s(2) w reachable_nav.start c0 w0
  obtain s' t' where s': "handlePlay 9 s = Inr s'" "s' \<noteq> s" "\<not> history_ok s'"
    and t': "handlePlay_nav (- 1) initial_nav = Inr t'" "t' \<noteq> initial_nav" "\<not> history_ok t'"
    by (auto simp: Let_def)
  have "s' = s1" "t' = t1" using s(3) s'(1) t(1) t'(1) by simp_all
  then show ?thesis
    using rs s w s' t t' c0 w0 reachable_nav.start by blast
qed

text \<open>
  Against C10 as stated, which gives every snapshot appended for an index of 9 or
  more over nine cells: 4294967295 is above 8 and is no array index, so the play
  with it on the initial state appends a snapshot that still has nine cells.
\<close>

theorem play_beyond_array_indices_counterexample:
  "(9 :: int) \<le> 4294967295 \<and>
   handlePlay 4294967295 initial =
     Inr \<lparr>history =
            [emptyBoard,
             \<lparr>elems = [ce, ce, ce, ce, ce, ce, ce, ce, ce],
              props = Map.empty(4294967295 \<mapsto> MarkX)\<rparr>],
          step = 1, xIsNext = False\<rparr> \<and>
   length (elems \<lparr>elems = [ce, ce, ce, ce, ce, ce, ce, ce, ce],
                  props = Map.empty(4294967295 \<mapsto> MarkX)\<rparr>) = 9"
  by (simp add: run_app)

end
